theory Spec2Isabelle
  imports Complex_Main
begin

section \<open>Data model\<close>

text \<open>
  The trace analytics code of the repository lives in React components; every computation
  modelled here is the body of a \<^verbatim>\<open>useMemo\<close> callback, a pure function of the component's
  props and state.

  Timestamps are ISO-8601 strings in the source and are only ever used through
  \<^verbatim>\<open>new Date(t).getTime()\<close>; the records below hold that value, an integral number of
  milliseconds, as an \<open>int\<close> (differences of such values are exact in a JavaScript number).
  Objects live in a store and are referred to by address.
\<close>

type_synonym addr = nat

record span =
  span_id :: string
  trace_id :: string
  parent_span_id :: "string option"
  name :: string
  kind :: string
  start_time :: int
  end_time :: int
  status_code :: string
  attributes :: addr
  events :: addr

record trace_summary =
  ts_trace_id :: string
  root_span_name :: string
  session_id :: "string option"
  ts_start_time :: int
  ts_end_time :: int
  span_count :: int

section \<open>JavaScript numbers and array sort\<close>

text \<open>
  A JavaScript number is modelled as an exact rational or one of the three non-finite
  values; rounding and the sign of zero are not modelled. The operations are the ones the
  analytics code applies to values that can be non-finite.
\<close>

datatype jsnum = Num rat | NaN | PosInf | NegInf

fun js_div :: "jsnum \<Rightarrow> jsnum \<Rightarrow> jsnum" where
  "js_div (Num a) (Num b) =
     (if b = 0 then (if a = 0 then NaN else if 0 < a then PosInf else NegInf)
      else Num (a / b))"
| "js_div (Num a) PosInf = Num 0"
| "js_div (Num a) NegInf = Num 0"
| "js_div PosInf (Num b) = (if 0 \<le> b then PosInf else NegInf)"
| "js_div NegInf (Num b) = (if 0 \<le> b then NegInf else PosInf)"
| "js_div _ _ = NaN"

fun js_mul :: "jsnum \<Rightarrow> jsnum \<Rightarrow> jsnum" where
  "js_mul (Num a) (Num b) = Num (a * b)"
| "js_mul NaN _ = NaN"
| "js_mul _ NaN = NaN"
| "js_mul (Num a) PosInf = (if a = 0 then NaN else if 0 < a then PosInf else NegInf)"
| "js_mul (Num a) NegInf = (if a = 0 then NaN else if 0 < a then NegInf else PosInf)"
| "js_mul PosInf (Num b) = (if b = 0 then NaN else if 0 < b then PosInf else NegInf)"
| "js_mul NegInf (Num b) = (if b = 0 then NaN else if 0 < b then NegInf else PosInf)"
| "js_mul PosInf PosInf = PosInf"
| "js_mul NegInf NegInf = PosInf"
| "js_mul PosInf NegInf = NegInf"
| "js_mul NegInf PosInf = NegInf"

text \<open>\<^verbatim>\<open>a <= b\<close>: false as soon as one side is \<^verbatim>\<open>NaN\<close>.\<close>

fun js_le :: "jsnum \<Rightarrow> jsnum \<Rightarrow> bool" where
  "js_le NaN _ = False"
| "js_le _ NaN = False"
| "js_le NegInf _ = True"
| "js_le _ PosInf = True"
| "js_le (Num a) (Num b) = (a \<le> b)"
| "js_le _ _ = False"

text \<open>\<^verbatim>\<open>Math.max(a, b)\<close>: \<^verbatim>\<open>NaN\<close> as soon as one argument is.\<close>

fun js_max :: "jsnum \<Rightarrow> jsnum \<Rightarrow> jsnum" where
  "js_max NaN _ = NaN"
| "js_max _ NaN = NaN"
| "js_max a b = (if js_le a b then b else a)"

fun is_finite :: "jsnum \<Rightarrow> bool" where
  "is_finite (Num a) = True"
| "is_finite _ = False"

text \<open>
  \<^verbatim>\<open>Array.prototype.sort(cmp)\<close> is stable; for a comparator that orders by a key its result
  is the stable insertion sort below (an element goes in front of the first element it
  does not compare greater than, and elements are inserted from the right).
\<close>

fun js_insert :: "('a \<Rightarrow> 'a \<Rightarrow> int) \<Rightarrow> 'a \<Rightarrow> 'a list \<Rightarrow> 'a list" where
  "js_insert cmp x [] = [x]"
| "js_insert cmp x (y # ys) = (if cmp x y \<le> 0 then x # y # ys else y # js_insert cmp x ys)"

definition js_sort :: "('a \<Rightarrow> 'a \<Rightarrow> int) \<Rightarrow> 'a list \<Rightarrow> 'a list" where
  "js_sort cmp xs = foldr (js_insert cmp) xs []"

section \<open>Metrics aggregator\<close>

text \<open>
  \<^verbatim>\<open>TraceMetrics\<close> and \<^verbatim>\<open>ResponsiveMetricCards\<close> compute the same record, the second with
  \<^verbatim>\<open>p99Latency\<close>, \<^verbatim>\<open>successRate\<close> and \<^verbatim>\<open>slowestTrace\<close> in addition. The token and breakdown
  fields, which read the untyped attribute bag, are left out. Every division below is
  by a length the source has tested to be non-zero, so the results are finite and
  held as rationals.
\<close>

record metrics =
  avgLatency :: rat
  p95Latency :: rat
  errorRate :: rat
  throughput :: rat

record metrics_cards = metrics +
  p99Latency :: rat
  successRate :: rat
  slowestTrace :: rat

definition latency :: "trace_summary \<Rightarrow> int" where
  "latency t = ts_end_time t - ts_start_time t"

text \<open>
  \<^verbatim>\<open>Math.floor(sortedLatencies.length * p)\<close>, with the exact product: for \<open>p\<close> the double
  nearest to 0.95 or 0.99 and every array length below three million the rounded product
  has the same floor.
\<close>

definition percentileIndex :: "nat \<Rightarrow> rat \<Rightarrow> nat" where
  "percentileIndex n p = nat \<lfloor>of_nat n * p\<rfloor>"

text \<open>\<^verbatim>\<open>xs[i] || 0\<close>: \<^verbatim>\<open>undefined\<close> out of range, and \<open>0\<close> for a falsy element.\<close>

definition at_or_zero :: "int list \<Rightarrow> nat \<Rightarrow> rat" where
  "at_or_zero xs i = (if i < length xs \<and> xs ! i \<noteq> 0 then of_int (xs ! i) else 0)"

definition errorCount :: "span list \<Rightarrow> nat" where
  "errorCount spans = length (filter (\<lambda>s. status_code s = ''ERROR'') spans)"

definition errorRate_of :: "span list \<Rightarrow> rat" where
  "errorRate_of spans =
     (if length spans \<noteq> 0 then (of_nat (errorCount spans) / of_nat (length spans)) * 100 else 0)"

definition throughput_of :: "trace_summary list \<Rightarrow> rat" where
  "throughput_of traces =
     (let timeSpan = (if 1 < length traces
                      then ts_start_time (traces ! 0) - ts_start_time (traces ! (length traces - 1))
                      else 3600000)
      in (of_nat (length traces) / of_int (max timeSpan 3600000)) * 3600000)"

definition TraceMetrics :: "trace_summary list \<Rightarrow> span list \<Rightarrow> metrics" where
  "TraceMetrics traces spans =
     (if length traces = 0 then
        \<lparr>avgLatency = 0, p95Latency = 0, errorRate = 0, throughput = 0\<rparr>
      else
        let latencies = map latency traces;
            avg = of_int (foldl (+) 0 latencies) / of_nat (length latencies);
            sortedLatencies = js_sort (\<lambda>a b. a - b) latencies;
            p95Index = percentileIndex (length sortedLatencies) (95 / 100);
            p95 = at_or_zero sortedLatencies p95Index
        in \<lparr>avgLatency = avg, p95Latency = p95, errorRate = errorRate_of spans,
            throughput = throughput_of traces\<rparr>)"

definition ResponsiveMetricCards :: "trace_summary list \<Rightarrow> span list \<Rightarrow> metrics_cards" where
  "ResponsiveMetricCards traces spans =
     (if length traces = 0 then
        \<lparr>avgLatency = 0, p95Latency = 0, errorRate = 0, throughput = 0,
         p99Latency = 0, successRate = 0, slowestTrace = 0\<rparr>
      else
        let latencies = map latency traces;
            avg = of_int (foldl (+) 0 latencies) / of_nat (length latencies);
            sortedLatencies = js_sort (\<lambda>a b. a - b) latencies;
            p95Index = percentileIndex (length sortedLatencies) (95 / 100);
            p99Index = percentileIndex (length sortedLatencies) (99 / 100);
            p95 = at_or_zero sortedLatencies p95Index;
            p99 = at_or_zero sortedLatencies p99Index;
            slowest = of_int (fold max (tl latencies) (hd latencies));
            errRate = errorRate_of spans
        in \<lparr>avgLatency = avg, p95Latency = p95, errorRate = errRate,
            throughput = throughput_of traces,
            p99Latency = p99, successRate = 100 - errRate, slowestTrace = slowest\<rparr>)"

section \<open>Trace filter and sort engine\<close>

text \<open>
  The filter state of both search components; every field is a string typed into, or
  chosen in, a form control. \<^verbatim>\<open>TraceSearch\<close> has no \<^verbatim>\<open>sortBy\<close> and \<^verbatim>\<open>sortOrder\<close>.
\<close>

record filters =
  searchTerm :: string
  minDuration :: string
  maxDuration :: string
  status :: string
  sessionId :: string
  dateRange :: string
  sortBy :: string
  sortOrder :: string

text \<open>
  Strings are held as the UTF-8 bytes of the JavaScript string.

  \<^verbatim>\<open>parseFloat\<close>: leading white space is skipped and the longest prefix that is a decimal
  literal is read (sign, \<^verbatim>\<open>Infinity\<close> or digits with an optional fraction and exponent);
  with no such prefix the result is \<^verbatim>\<open>NaN\<close>. The value is kept exact.

  \<open>space_bytes\<close> is the number of bytes of a leading white-space or line-terminator
  character (0 when there is none): TAB, LF, VT, FF, CR, SP, and in UTF-8 U+00A0, U+1680,
  U+2000 to U+200A, U+2028, U+2029, U+202F, U+205F, U+3000 and U+FEFF.
\<close>

fun space_bytes :: "nat list \<Rightarrow> nat" where
  "space_bytes [] = 0"
| "space_bytes (a # r) =
     (if a \<in> {9, 10, 11, 12, 13, 32} then 1
      else if a = 194 \<and> take 1 r = [160] then 2
      else if a = 225 \<and> take 2 r = [154, 128] then 3
      else if a = 226 \<and>
              (case r of
                 b # c # _ \<Rightarrow>
                   (b = 128 \<and> ((128 \<le> c \<and> c \<le> 138) \<or> c = 168 \<or> c = 169 \<or> c = 175)) \<or>
                   (b = 129 \<and> c = 159)
               | _ \<Rightarrow> False) then 3
      else if a = 227 \<and> take 2 r = [128, 128] then 3
      else if a = 239 \<and> take 2 r = [187, 191] then 3
      else 0)"

function skip_space :: "string \<Rightarrow> string" where
  "skip_space [] = []"
| "skip_space (c # r) =
     (let n = space_bytes (map of_char (c # r))
      in if n = 0 then c # r else skip_space (drop (n - 1) r))"
  by pat_completeness auto
termination
  by (relation "measure length") (simp_all del: space_bytes.simps)

definition is_digit :: "char \<Rightarrow> bool" where
  "is_digit c = (48 \<le> (of_char c :: nat) \<and> (of_char c :: nat) \<le> 57)"

definition digits_val :: "string \<Rightarrow> nat" where
  "digits_val ds = foldl (\<lambda>a c. 10 * a + (of_char c - 48)) 0 ds"

text \<open>The exponent part \<^verbatim>\<open>e[+-]digits\<close>, read only when it is complete.\<close>

definition exponent_part :: "string \<Rightarrow> int" where
  "exponent_part r =
     (case r of
        [] \<Rightarrow> 0
      | c # r1 \<Rightarrow>
          if c = CHR ''e'' \<or> c = CHR ''E'' then
            (case r1 of
               [] \<Rightarrow> 0
             | d # r2 \<Rightarrow>
                 if d = CHR ''-'' then
                   (if takeWhile is_digit r2 = [] then 0
                    else - int (digits_val (takeWhile is_digit r2)))
                 else if d = CHR ''+'' then int (digits_val (takeWhile is_digit r2))
                 else int (digits_val (takeWhile is_digit r1)))
          else 0)"

definition scale10 :: "rat \<Rightarrow> int \<Rightarrow> rat" where
  "scale10 x e = (if 0 \<le> e then x * 10 ^ nat e else x / 10 ^ nat (- e))"

definition parseFloat :: "string \<Rightarrow> jsnum" where
  "parseFloat str =
     (let t = skip_space str;
          neg = (case t of [] \<Rightarrow> False | c # _ \<Rightarrow> c = CHR ''-'');
          u = (case t of [] \<Rightarrow> [] | c # r \<Rightarrow> if c = CHR ''-'' \<or> c = CHR ''+'' then r else t)
      in if take 8 u = ''Infinity'' then (if neg then NegInf else PosInf)
         else
           let ip = takeWhile is_digit u;
               r1 = dropWhile is_digit u;
               dot = (case r1 of [] \<Rightarrow> False | c # _ \<Rightarrow> c = CHR ''.'');
               fp = (if dot then takeWhile is_digit (tl r1) else []);
               r2 = (if dot then dropWhile is_digit (tl r1) else r1)
           in if ip = [] \<and> fp = [] then NaN
              else
                let mant = of_nat (digits_val ip) + of_nat (digits_val fp) / 10 ^ length fp;
                    v = scale10 mant (exponent_part r2)
                in Num (if neg then - v else v))"

text \<open>
  \<^verbatim>\<open>toLowerCase\<close> and \<^verbatim>\<open>String.prototype.includes\<close>. Lower-casing is modelled for search
  terms and fields of ASCII characters: the letters A to Z are lowered and every other
  byte is kept, whereas JavaScript also lowers the cased letters outside ASCII.
\<close>

definition lower_char :: "char \<Rightarrow> char" where
  "lower_char c = (if 65 \<le> (of_char c :: nat) \<and> (of_char c :: nat) \<le> 90
                   then char_of ((of_char c :: nat) + 32) else c)"

definition toLowerCase :: "string \<Rightarrow> string" where
  "toLowerCase s = map lower_char s"

fun js_includes :: "string \<Rightarrow> string \<Rightarrow> bool" where
  "js_includes [] t = (t = [])"
| "js_includes (c # s) t = (take (length t) (c # s) = t \<or> js_includes s t)"

definition duration :: "trace_summary \<Rightarrow> jsnum" where
  "duration trace = Num (of_int (ts_end_time trace - ts_start_time trace))"

definition matchesSearch :: "string \<Rightarrow> trace_summary \<Rightarrow> bool" where
  "matchesSearch term trace =
     (js_includes (toLowerCase (root_span_name trace)) term \<or>
      js_includes (toLowerCase (ts_trace_id trace)) term \<or>
      (case session_id trace of
         None \<Rightarrow> False
       | Some sid \<Rightarrow> sid \<noteq> [] \<and> js_includes (toLowerCase sid) term))"

text \<open>The filters shared by both components, in the order of the source.\<close>

definition searchFilter :: "filters \<Rightarrow> trace_summary list \<Rightarrow> trace_summary list" where
  "searchFilter f filtered =
     (if searchTerm f \<noteq> [] then filter (matchesSearch (toLowerCase (searchTerm f))) filtered
      else filtered)"

definition minDurationFilter :: "filters \<Rightarrow> trace_summary list \<Rightarrow> trace_summary list" where
  "minDurationFilter f filtered =
     (if minDuration f \<noteq> [] then
        (let minMs = parseFloat (minDuration f)
         in filter (\<lambda>trace. js_le minMs (duration trace)) filtered)
      else filtered)"

definition maxDurationFilter :: "filters \<Rightarrow> trace_summary list \<Rightarrow> trace_summary list" where
  "maxDurationFilter f filtered =
     (if maxDuration f \<noteq> [] then
        (let maxMs = parseFloat (maxDuration f)
         in filter (\<lambda>trace. js_le (duration trace) maxMs) filtered)
      else filtered)"

definition sessionFilter :: "filters \<Rightarrow> trace_summary list \<Rightarrow> trace_summary list" where
  "sessionFilter f filtered =
     (if sessionId f \<noteq> [] then filter (\<lambda>trace. session_id trace = Some (sessionId f)) filtered
      else filtered)"

subsection \<open>\<^verbatim>\<open>TraceSearch\<close>\<close>

definition statusFilter_simple :: "filters \<Rightarrow> trace_summary list \<Rightarrow> trace_summary list" where
  "statusFilter_simple f filtered =
     (if status f \<noteq> ''all'' then
        (if status f = ''error'' then
           filter (\<lambda>trace. ts_end_time trace - ts_start_time trace > 10000) filtered
         else if status f = ''success'' then
           filter (\<lambda>trace. ts_end_time trace - ts_start_time trace \<le> 10000) filtered
         else filtered)
      else filtered)"

definition dateFilter_simple :: "int \<Rightarrow> filters \<Rightarrow> trace_summary list \<Rightarrow> trace_summary list" where
  "dateFilter_simple now f filtered =
     (if dateRange f \<noteq> ''all'' then
        (let cutoff =
               (if dateRange f = ''1h'' then now - 60 * 60 * 1000
                else if dateRange f = ''24h'' then now - 24 * 60 * 60 * 1000
                else if dateRange f = ''7d'' then now - 7 * 24 * 60 * 60 * 1000
                else 0)
         in filter (\<lambda>trace. ts_start_time trace \<ge> cutoff) filtered)
      else filtered)"

definition filteredTraces_simple :: "int \<Rightarrow> filters \<Rightarrow> trace_summary list \<Rightarrow> trace_summary list" where
  "filteredTraces_simple now f traces =
     dateFilter_simple now f (sessionFilter f (statusFilter_simple f
       (maxDurationFilter f (minDurationFilter f (searchFilter f traces)))))"

subsection \<open>\<^verbatim>\<open>AdvancedTraceSearch\<close>\<close>

text \<open>The callback of the status filter: the bucket a duration falls in.\<close>

definition statusMatches :: "string \<Rightarrow> trace_summary \<Rightarrow> bool" where
  "statusMatches st trace =
     (let d = ts_end_time trace - ts_start_time trace
      in if st = ''error'' then d > 15000
         else if st = ''success'' then d \<le> 5000
         else if st = ''slow'' then d > 5000 \<and> d \<le> 15000
         else True)"

definition statusFilter :: "filters \<Rightarrow> trace_summary list \<Rightarrow> trace_summary list" where
  "statusFilter f filtered =
     (if status f \<noteq> ''all'' then filter (statusMatches (status f)) filtered else filtered)"

definition dateFilter :: "int \<Rightarrow> filters \<Rightarrow> trace_summary list \<Rightarrow> trace_summary list" where
  "dateFilter now f filtered =
     (if dateRange f \<noteq> ''all'' then
        (let cutoff =
               (if dateRange f = ''15m'' then now - 15 * 60 * 1000
                else if dateRange f = ''1h'' then now - 60 * 60 * 1000
                else if dateRange f = ''6h'' then now - 6 * 60 * 60 * 1000
                else if dateRange f = ''24h'' then now - 24 * 60 * 60 * 1000
                else if dateRange f = ''7d'' then now - 7 * 24 * 60 * 60 * 1000
                else 0)
         in filter (\<lambda>trace. ts_start_time trace \<ge> cutoff) filtered)
      else filtered)"

definition compareTraces :: "filters \<Rightarrow> trace_summary \<Rightarrow> trace_summary \<Rightarrow> int" where
  "compareTraces f a b =
     (let comparison =
            (if sortBy f = ''timestamp'' then ts_start_time a - ts_start_time b
             else if sortBy f = ''duration'' then
               (ts_end_time a - ts_start_time a) - (ts_end_time b - ts_start_time b)
             else if sortBy f = ''spans'' then span_count a - span_count b
             else 0)
      in if sortOrder f = ''desc'' then - comparison else comparison)"

definition filteredTraces :: "int \<Rightarrow> filters \<Rightarrow> trace_summary list \<Rightarrow> trace_summary list" where
  "filteredTraces now f traces =
     js_sort (compareTraces f)
       (dateFilter now f (sessionFilter f (statusFilter f
         (maxDurationFilter f (minDurationFilter f (searchFilter f traces))))))"

text \<open>The initial filter state of \<^verbatim>\<open>AdvancedTraceSearch\<close>.\<close>

definition initialFilters :: filters where
  "initialFilters =
     \<lparr>searchTerm = [], minDuration = [], maxDuration = [], status = ''all'', sessionId = [],
      dateRange = ''all'', sortBy = ''timestamp'', sortOrder = ''desc''\<rparr>"

section \<open>Span tree builder\<close>

text \<open>
  \<^verbatim>\<open>TimelineSpan extends TraceSpan\<close>. A node's \<^verbatim>\<open>children\<close> array is created with the node and
  never shared, so it is held in the node; its elements are references to nodes.
\<close>

record timeline_span = span +
  depth :: nat
  children :: "addr list"
  startMs :: int
  durationMs :: int

datatype obj =
    SpanObj span
  | NodeObj timeline_span
  | ArrObj "addr list"
  | AttrsObj "(string \<times> string) list"
  | EventsObj "(string \<times> int) list"

type_synonym store = "obj list"

text \<open>
  A \<^verbatim>\<open>Map<string, TimelineSpan>\<close>: entries in insertion order, \<^verbatim>\<open>set\<close> on a present key
  replaces the value in place.
\<close>

type_synonym span_map = "(string \<times> addr) list"

fun map_set :: "span_map \<Rightarrow> string \<Rightarrow> addr \<Rightarrow> span_map" where
  "map_set [] k v = [(k, v)]"
| "map_set ((k', v') # m) k v = (if k' = k then (k, v) # m else (k', v') # map_set m k v)"

definition node_at :: "store \<Rightarrow> addr \<Rightarrow> timeline_span option" where
  "node_at s a = (if a < length s then (case s ! a of NodeObj n \<Rightarrow> Some n | _ \<Rightarrow> None) else None)"

text \<open>A write to a field of the node at \<open>a\<close>; every address written by the builder holds a node.\<close>

definition upd_node :: "addr \<Rightarrow> (timeline_span \<Rightarrow> timeline_span) \<Rightarrow> store \<Rightarrow> store" where
  "upd_node a g s = (case node_at s a of Some n \<Rightarrow> s[a := NodeObj (g n)] | None \<Rightarrow> s)"

definition children_at :: "store \<Rightarrow> addr \<Rightarrow> addr list" where
  "children_at s a = (case node_at s a of Some n \<Rightarrow> children n | None \<Rightarrow> [])"

definition depth_at :: "store \<Rightarrow> addr \<Rightarrow> nat" where
  "depth_at s a = (case node_at s a of Some n \<Rightarrow> depth n | None \<Rightarrow> 0)"

definition startMs_at :: "store \<Rightarrow> addr \<Rightarrow> int" where
  "startMs_at s a = (case node_at s a of Some n \<Rightarrow> startMs n | None \<Rightarrow> 0)"

text \<open>\<^verbatim>\<open>Math.min(...spans.map(s => new Date(s.start_time).getTime()))\<close> on a non-empty array.\<close>

definition minTime :: "span \<Rightarrow> span list \<Rightarrow> int" where
  "minTime sp spans = fold min (map start_time spans) (start_time sp)"

text \<open>The object literal \<^verbatim>\<open>{...span, depth: 0, children: [], startMs, durationMs}\<close>.\<close>

definition toTimelineSpan :: "int \<Rightarrow> span \<Rightarrow> timeline_span" where
  "toTimelineSpan minT sp =
     (let startMs = start_time sp - minT;
          endMs = end_time sp - minT
      in \<lparr>span_id = span_id sp, trace_id = trace_id sp, parent_span_id = parent_span_id sp,
          name = name sp, kind = kind sp, start_time = start_time sp, end_time = end_time sp,
          status_code = status_code sp, attributes = attributes sp, events = events sp,
          depth = 0, children = [], startMs = startMs, durationMs = endMs - startMs\<rparr>)"

text \<open>First loop: a new node object per span, entered in the index under its \<^verbatim>\<open>span_id\<close>.\<close>

definition addSpan :: "int \<Rightarrow> span \<Rightarrow> store \<times> span_map \<Rightarrow> store \<times> span_map" where
  "addSpan minT sp st =
     (case st of (s, spanMap) \<Rightarrow>
        (s @ [NodeObj (toTimelineSpan minT sp)], map_set spanMap (span_id sp) (length s)))"

text \<open>
  Second loop, the callback of \<^verbatim>\<open>spanMap.forEach\<close> for the node at \<open>a\<close>: with a truthy
  \<^verbatim>\<open>parent_span_id\<close> that is a key of the index the node is pushed on the parent's \<^verbatim>\<open>children\<close>
  and its \<^verbatim>\<open>depth\<close> is set from the parent's current \<^verbatim>\<open>depth\<close>; otherwise it is pushed on
  \<^verbatim>\<open>rootSpans\<close>.
\<close>

definition resolveParent :: "span_map \<Rightarrow> store \<Rightarrow> addr \<Rightarrow> addr option" where
  "resolveParent spanMap s a =
     (case node_at s a of
        None \<Rightarrow> None
      | Some n \<Rightarrow>
          (case parent_span_id n of
             None \<Rightarrow> None
           | Some pid \<Rightarrow> if pid \<noteq> [] then map_of spanMap pid else None))"

definition attach :: "span_map \<Rightarrow> addr \<Rightarrow> store \<times> addr list \<Rightarrow> store \<times> addr list" where
  "attach spanMap a st =
     (case st of (s, rootSpans) \<Rightarrow>
        (case resolveParent spanMap s a of
           Some p \<Rightarrow>
             (let s1 = upd_node p (\<lambda>n. n\<lparr>children := children n @ [a]\<rparr>) s;
                  s2 = upd_node a (\<lambda>n. n\<lparr>depth := depth_at s1 p + 1\<rparr>) s1
              in (s2, rootSpans))
         | None \<Rightarrow> (s, rootSpans @ [a])))"

text \<open>
  \<^verbatim>\<open>sortChildren\<close> sorts the array it is given in place and calls itself on the \<^verbatim>\<open>children\<close>
  of every element. \<open>sortChildren\<close> below is the call on the \<^verbatim>\<open>children\<close> array of the node
  at \<open>a\<close>, \<open>sortEach\<close> the \<^verbatim>\<open>forEach\<close> over a sorted array, and \<open>sortRoots\<close> the outer call
  on \<^verbatim>\<open>rootSpans\<close>. The recursion follows references through the store; the first argument
  bounds its depth, and \<open>None\<close> means the bound was reached.
\<close>

definition compareStart :: "store \<Rightarrow> addr \<Rightarrow> addr \<Rightarrow> int" where
  "compareStart s a b = startMs_at s a - startMs_at s b"

fun sortChildren :: "nat \<Rightarrow> store \<Rightarrow> addr \<Rightarrow> store option"
  and sortEach :: "nat \<Rightarrow> store \<Rightarrow> addr list \<Rightarrow> store option" where
  "sortChildren 0 s a = None"
| "sortChildren (Suc fuel) s a =
     (let sorted = js_sort (compareStart s) (children_at s a);
          s1 = upd_node a (\<lambda>n. n\<lparr>children := sorted\<rparr>) s
      in sortEach fuel s1 sorted)"
| "sortEach fuel s [] = Some s"
| "sortEach fuel s (c # cs) =
     (case sortChildren fuel s c of None \<Rightarrow> None | Some s' \<Rightarrow> sortEach fuel s' cs)"

definition sortRoots :: "nat \<Rightarrow> store \<Rightarrow> addr list \<Rightarrow> (store \<times> addr list) option" where
  "sortRoots fuel s rootSpans =
     (let sorted = js_sort (compareStart s) rootSpans
      in case sortEach fuel s sorted of None \<Rightarrow> None | Some s' \<Rightarrow> Some (s', sorted))"

text \<open>
  The \<^verbatim>\<open>spanTree\<close> memo on the store \<open>s\<close> that holds the input objects: the first loop
  (\<open>buildIndex\<close>), the second (\<open>linkAll\<close>) and the sort give the final store and the returned
  \<^verbatim>\<open>rootSpans\<close> array.
\<close>

definition buildIndex :: "store \<Rightarrow> span list \<Rightarrow> store \<times> span_map" where
  "buildIndex s spans =
     (case spans of
        [] \<Rightarrow> (s, [])
      | sp # rest \<Rightarrow> fold (addSpan (minTime sp rest)) spans (s, []))"

definition linkAll :: "span_map \<Rightarrow> store \<Rightarrow> store \<times> addr list" where
  "linkAll spanMap s = fold (attach spanMap) (map snd spanMap) (s, [])"

definition spanTree :: "nat \<Rightarrow> store \<Rightarrow> span list \<Rightarrow> (store \<times> addr list) option" where
  "spanTree fuel s spans =
     (if length spans = 0 then Some (s, [])
      else
        case buildIndex s spans of (s1, spanMap) \<Rightarrow>
          (case linkAll spanMap s1 of (s2, rootSpans) \<Rightarrow> sortRoots fuel s2 rootSpans))"

text \<open>
  The component receives the array \<^verbatim>\<open>spans\<close> by reference: the input array and the span
  objects it lists are objects of the store.
\<close>

definition span_at :: "store \<Rightarrow> addr \<Rightarrow> span option" where
  "span_at s a = (if a < length s then (case s ! a of SpanObj sp \<Rightarrow> Some sp | _ \<Rightarrow> None) else None)"

definition readSpans :: "store \<Rightarrow> addr \<Rightarrow> span list option" where
  "readSpans s arr =
     (if arr < length s then
        (case s ! arr of
           ArrObj as \<Rightarrow>
             (if list_all (\<lambda>a. span_at s a \<noteq> None) as then Some (map (\<lambda>a. the (span_at s a)) as)
              else None)
         | _ \<Rightarrow> None)
      else None)"

definition spanTreeOf :: "nat \<Rightarrow> store \<Rightarrow> addr \<Rightarrow> (store \<times> addr list) option" where
  "spanTreeOf fuel s arr =
     (case readSpans s arr of None \<Rightarrow> None | Some spans \<Rightarrow> spanTree fuel s spans)"

text \<open>
  The value of a \<^verbatim>\<open>TimelineSpan[]\<close>: each node with its address, its fields and the values of
  its children, read through the store to the given depth.
\<close>

datatype tspan = TSpan (ref: addr) (fields: timeline_span) (kids: "tspan list")

fun materialize :: "nat \<Rightarrow> store \<Rightarrow> addr \<Rightarrow> tspan option" where
  "materialize 0 s a = None"
| "materialize (Suc fuel) s a =
     (case node_at s a of
        None \<Rightarrow> None
      | Some n \<Rightarrow>
          (case those (map (materialize fuel s) (children n)) of
             None \<Rightarrow> None
           | Some ks \<Rightarrow> Some (TSpan a n ks)))"

definition forest :: "nat \<Rightarrow> store \<times> addr list \<Rightarrow> tspan list option" where
  "forest fuel r = (case r of (s, rootSpans) \<Rightarrow> those (map (materialize fuel s) rootSpans))"

definition spanForest :: "nat \<Rightarrow> store \<Rightarrow> span list \<Rightarrow> tspan list option" where
  "spanForest fuel s spans =
     (case spanTree fuel s spans of None \<Rightarrow> None | Some r \<Rightarrow> forest fuel r)"

section \<open>Timeline layout\<close>

text \<open>\<^verbatim>\<open>flattenedSpans\<close>: the \<^verbatim>\<open>result\<close> array in the order of the pushes.\<close>

fun flatten :: "string set \<Rightarrow> tspan list \<Rightarrow> tspan list" where
  "flatten collapsedSpans [] = []"
| "flatten collapsedSpans (TSpan a n ks # spans) =
     TSpan a n ks #
     (if span_id n \<notin> collapsedSpans then flatten collapsedSpans ks else []) @
     flatten collapsedSpans spans"

text \<open>\<^verbatim>\<open>toggleCollapse\<close>\<close>

definition toggleCollapse :: "string \<Rightarrow> string set \<Rightarrow> string set" where
  "toggleCollapse spanId collapsedSpans =
     (if spanId \<in> collapsedSpans then collapsedSpans - {spanId} else insert spanId collapsedSpans)"

text \<open>\<^verbatim>\<open>maxTime\<close>, and the bar of a row of \<^verbatim>\<open>ModernTraceTimeline\<close> (in percent of the track).\<close>

definition maxTime :: "span list \<Rightarrow> int" where
  "maxTime spans =
     (case spans of
        [] \<Rightarrow> 1
      | sp # rest \<Rightarrow> fold max (map end_time rest) (end_time sp) - minTime sp rest)"

definition barWidth :: "int \<Rightarrow> timeline_span \<Rightarrow> jsnum" where
  "barWidth maxT sp =
     js_max (Num 2) (js_mul (js_div (Num (of_int (durationMs sp))) (Num (of_int maxT))) (Num 100))"

definition barLeft :: "int \<Rightarrow> timeline_span \<Rightarrow> jsnum" where
  "barLeft maxT sp = js_mul (js_div (Num (of_int (startMs sp))) (Num (of_int maxT))) (Num 100)"

text \<open>
  The denominator of \<^verbatim>\<open>TraceGraph\<close>'s \<^verbatim>\<open>scaleX\<close>, which draws the same spans:
  \<^verbatim>\<open>Math.max(1, timeBounds.max - timeBounds.min)\<close>.
\<close>

definition scaleX_denominator :: "int \<Rightarrow> int \<Rightarrow> int" where
  "scaleX_denominator tmin tmax = max 1 (tmax - tmin)"

text \<open>
  \<^verbatim>\<open>TraceGraph\<close>'s \<^verbatim>\<open>depth\<close>, which follows the parent references of a node up to a node with
  no resolved parent (the memo table \<^verbatim>\<open>depthMap\<close> only saves work). The map \<^verbatim>\<open>byId\<close> is given
  as an association list with one entry per id; the first argument bounds the recursion.
\<close>

fun graphDepth :: "nat \<Rightarrow> (string \<times> span) list \<Rightarrow> span \<Rightarrow> nat option" where
  "graphDepth 0 byId n = None"
| "graphDepth (Suc fuel) byId n =
     (case parent_span_id n of
        None \<Rightarrow> Some 0
      | Some pid \<Rightarrow>
          if pid = [] then Some 0
          else (case map_of byId pid of
                  None \<Rightarrow> Some 0
                | Some p \<Rightarrow> map_option Suc (graphDepth fuel byId p)))"

text \<open>
  The flattened sequence in the words of the specification: the pre-order traversal of the
  forest, each node listed with the ids of its proper ancestors (nearest first), restricted
  to the nodes none of whose proper ancestors is collapsed.
\<close>

fun preorder_anc :: "string list \<Rightarrow> tspan list \<Rightarrow> (tspan \<times> string list) list" where
  "preorder_anc anc [] = []"
| "preorder_anc anc (TSpan a n ks # spans) =
     (TSpan a n ks, anc) # preorder_anc (span_id n # anc) ks @ preorder_anc anc spans"

definition visible :: "string set \<Rightarrow> tspan \<times> string list \<Rightarrow> bool" where
  "visible collapsedSpans e = (set (snd e) \<inter> collapsedSpans = {})"

definition flatten_anc :: "string set \<Rightarrow> tspan list \<Rightarrow> (tspan \<times> string list) list" where
  "flatten_anc collapsedSpans spans = filter (visible collapsedSpans) (preorder_anc [] spans)"

definition flatten_spec :: "string set \<Rightarrow> tspan list \<Rightarrow> tspan list" where
  "flatten_spec collapsedSpans spans = map fst (flatten_anc collapsedSpans spans)"

fun forest_ids :: "tspan list \<Rightarrow> string list" where
  "forest_ids [] = []"
| "forest_ids (TSpan a n ks # spans) = span_id n # forest_ids ks @ forest_ids spans"

section \<open>Notions used to state the properties of the builder\<close>

text \<open>The node objects the first loop appends to the store, one per input span.\<close>

definition nodes_of :: "int \<Rightarrow> span list \<Rightarrow> store" where
  "nodes_of minT xs = map (\<lambda>sp. NodeObj (toTimelineSpan minT sp)) xs"

text \<open>
  \<open>agree n n'\<close>: two nodes differ in their \<open>depth\<close> and \<open>children\<close> fields at most.
  \<open>same_but V s s'\<close>: the store \<open>s'\<close> is \<open>s\<close> except for the \<open>depth\<close> and \<open>children\<close> fields
  of nodes at addresses in \<open>V\<close>.
\<close>

definition agree :: "timeline_span \<Rightarrow> timeline_span \<Rightarrow> bool" where
  "agree n n' = (n'\<lparr>depth := 0, children := []\<rparr> = n\<lparr>depth := 0, children := []\<rparr>)"

definition same_but :: "addr set \<Rightarrow> store \<Rightarrow> store \<Rightarrow> bool" where
  "same_but V s s' =
     (length s' = length s \<and>
      (\<forall>a<length s. s' ! a = s ! a \<or>
         (a \<in> V \<and> (\<exists>n n'. s ! a = NodeObj n \<and> s' ! a = NodeObj n' \<and> agree n n'))))"

text \<open>
  \<open>graph_ok m s1 s\<close>: the store \<open>s\<close> differs from the store \<open>s1\<close> left by the first loop in
  \<open>depth\<close> and \<open>children\<close> fields of indexed nodes only, and the \<open>children\<close> array of every
  indexed node lists, each once, the indexed nodes whose resolved parent it is.
\<close>

definition graph_ok :: "span_map \<Rightarrow> store \<Rightarrow> store \<Rightarrow> bool" where
  "graph_ok m s1 s =
     (same_but (snd ` set m) s1 s \<and>
      (\<forall>p \<in> snd ` set m. node_at s p \<noteq> None \<and> distinct (children_at s p) \<and>
         set (children_at s p) = {c \<in> snd ` set m. resolveParent m s1 c = Some p}))"

text \<open>
  \<open>lvl par a d\<close>: following the parent function \<open>par\<close> from \<open>a\<close> reaches a vertex without
  parent after exactly \<open>d\<close> steps.
\<close>

inductive lvl :: "('a \<Rightarrow> 'a option) \<Rightarrow> 'a \<Rightarrow> nat \<Rightarrow> bool" for par :: "'a \<Rightarrow> 'a option" where
  lvl_root: "par a = None \<Longrightarrow> lvl par a 0"
| lvl_child: "par a = Some p \<Longrightarrow> lvl par p d \<Longrightarrow> lvl par a (Suc d)"

text \<open>The node reached from \<open>a\<close> by following \<open>j\<close> resolved parent references.\<close>

fun ancestor :: "('a \<Rightarrow> 'a option) \<Rightarrow> nat \<Rightarrow> 'a \<Rightarrow> 'a option" where
  "ancestor par 0 a = Some a"
| "ancestor par (Suc j) a = (case par a of None \<Rightarrow> None | Some p \<Rightarrow> ancestor par j p)"

text \<open>The addresses of the nodes of a forest, in pre-order.\<close>

fun forest_refs :: "tspan list \<Rightarrow> addr list" where
  "forest_refs [] = []"
| "forest_refs (TSpan a n ks # spans) = a # forest_refs ks @ forest_refs spans"

text \<open>
  \<open>wf_tree par s P t\<close>: the tree \<open>t\<close> is the value of the node at its address in \<open>s\<close>, the
  parent of that node is \<open>P\<close>, and so on below, siblings being distinct objects.
\<close>

fun wf_tree :: "(addr \<Rightarrow> addr option) \<Rightarrow> store \<Rightarrow> addr option \<Rightarrow> tspan \<Rightarrow> bool" where
  "wf_tree par s P (TSpan a n ks) =
     (node_at s a = Some n \<and> par a = P \<and> map ref ks = children n \<and> distinct (children n) \<and>
      list_all (wf_tree par s (Some a)) ks)"

section \<open>Sample inputs\<close>

text \<open>A trace summary with the given start and end time.\<close>

definition summary :: "int \<Rightarrow> int \<Rightarrow> trace_summary" where
  "summary st en = \<lparr>ts_trace_id = ''t'', root_span_name = ''chat'', session_id = None,
     ts_start_time = st, ts_end_time = en, span_count = 1\<rparr>"

text \<open>A span with the given id, parent, status and times.\<close>

definition mkSpan :: "string \<Rightarrow> string option \<Rightarrow> string \<Rightarrow> int \<Rightarrow> int \<Rightarrow> span" where
  "mkSpan i p st t0 t1 =
     \<lparr>span_id = i, trace_id = ''t'', parent_span_id = p, name = ''chat'',
      kind = ''internal'', start_time = t0, end_time = t1, status_code = st,
      attributes = 0, events = 1\<rparr>"

text \<open>
  Three spans, a root and its two children, and the forest the builder makes of them.
\<close>

definition scenarioA :: "span list" where
  "scenarioA =
     [mkSpan ''R'' None ''OK'' 0 100, mkSpan ''C2'' (Some ''R'') ''OK'' 50 90,
      mkSpan ''C1'' (Some ''R'') ''OK'' 10 40]"

definition forestA :: "tspan list" where
  "forestA =
     [TSpan 0 ((toTimelineSpan 0 (mkSpan ''R'' None ''OK'' 0 100))\<lparr>children := [2, 1]\<rparr>)
        [TSpan 2 ((toTimelineSpan 0 (mkSpan ''C1'' (Some ''R'') ''OK'' 10 40))\<lparr>depth := 1\<rparr>) [],
         TSpan 1 ((toTimelineSpan 0 (mkSpan ''C2'' (Some ''R'') ''OK'' 50 90))\<lparr>depth := 1\<rparr>) []]]"

text \<open>
  A store holding an attribute bag, an event list, two span objects and, at address 4, the
  input array listing them; and a span list in which both ids occur twice.
\<close>

definition sampleStore :: store where
  "sampleStore =
     [AttrsObj [(''model.name'', ''m'')], EventsObj [],
      SpanObj (mkSpan ''R'' None ''OK'' 0 100), SpanObj (mkSpan ''C'' (Some ''R'') ''OK'' 10 40),
      ArrObj [2, 3]]"

definition dupSpans :: "span list" where
  "dupSpans =
     [mkSpan ''R'' None ''OK'' 0 100, mkSpan ''C'' (Some ''R'') ''OK'' 50 90,
      mkSpan ''C'' (Some ''R'') ''OK'' 10 40, mkSpan ''R'' None ''OK'' 5 6]"

text \<open>
  Four spans: \<^verbatim>\<open>A\<close> and \<^verbatim>\<open>B\<close> are each other's parent, \<^verbatim>\<open>C\<close> is a child of \<^verbatim>\<open>A\<close>, \<^verbatim>\<open>R\<close> has no
  parent; and the store the builder leaves for them.
\<close>

definition cycSpans :: "span list" where
  "cycSpans =
     [mkSpan ''A'' (Some ''B'') ''OK'' 0 10, mkSpan ''B'' (Some ''A'') ''OK'' 0 10,
      mkSpan ''C'' (Some ''A'') ''OK'' 0 10, mkSpan ''R'' None ''OK'' 0 10]"

definition cycStore :: store where
  "cycStore =
     [NodeObj ((toTimelineSpan 0 (mkSpan ''A'' (Some ''B'') ''OK'' 0 10))\<lparr>depth := 1, children := [1, 2]\<rparr>),
      NodeObj ((toTimelineSpan 0 (mkSpan ''B'' (Some ''A'') ''OK'' 0 10))\<lparr>depth := 2, children := [0]\<rparr>),
      NodeObj ((toTimelineSpan 0 (mkSpan ''C'' (Some ''A'') ''OK'' 0 10))\<lparr>depth := 2\<rparr>),
      NodeObj (toTimelineSpan 0 (mkSpan ''R'' None ''OK'' 0 10))]"

text \<open>The span ids of a forest with the \<open>depth\<close> of each node, in pre-order.\<close>

definition depths :: "tspan list \<Rightarrow> (string \<times> nat) list" where
  "depths F = map (\<lambda>t. (span_id (fields t), depth (fields t))) (flatten {} F)"

section \<open>Properties of the metrics aggregator\<close>

lemma js_insert_minus: "js_insert (\<lambda>a b. a - b) (x::int) ys = insort x ys"
  by (induction ys) auto

lemma js_sort_minus: "js_sort (\<lambda>a b. a - b) (xs::int list) = sort xs"
  by (induction xs) (simp_all add: js_sort_def js_insert_minus)

lemma percentileIndex_less:
  assumes "0 < n" "0 \<le> p" "p < 1"
  shows "percentileIndex n p < n"
proof -
  have "of_nat n * p < (of_nat n :: rat)" using assms by simp
  then have "\<lfloor>of_nat n * p\<rfloor> < int n" by (simp add: floor_less_iff)
  moreover have "0 \<le> \<lfloor>of_nat n * p\<rfloor>" using assms by simp
  ultimately show ?thesis unfolding percentileIndex_def by linarith
qed

lemma at_or_zero_in_range: "i < length xs \<Longrightarrow> at_or_zero xs i = of_int (xs ! i)"
  by (simp add: at_or_zero_def)

text \<open>
  C4. For a non-empty list of trace summaries the p95 and p99 latencies are the elements at
  index \<open>floor (0.95 * count)\<close> and \<open>floor (0.99 * count)\<close> of the latencies sorted
  ascending (nearest rank, no interpolation); both are 0 for an empty list; for the
  latencies 100, 200, 300, 400, 500 the p95 latency is 500 and the average 300.
\<close>

theorem percentile_nearest_rank:
  "(traces \<noteq> [] \<longrightarrow>
      p95Latency (ResponsiveMetricCards traces spans) =
        of_int (sort (map latency traces) ! nat \<lfloor>(95 / 100 :: rat) * of_nat (length traces)\<rfloor>) \<and>
      p99Latency (ResponsiveMetricCards traces spans) =
        of_int (sort (map latency traces) ! nat \<lfloor>(99 / 100 :: rat) * of_nat (length traces)\<rfloor>) \<and>
      p95Latency (TraceMetrics traces spans) =
        of_int (sort (map latency traces) ! nat \<lfloor>(95 / 100 :: rat) * of_nat (length traces)\<rfloor>)) \<and>
   p95Latency (ResponsiveMetricCards [] spans) = 0 \<and>
   p99Latency (ResponsiveMetricCards [] spans) = 0 \<and>
   p95Latency (TraceMetrics [] spans) = 0 \<and>
   (map latency traces = [100, 200, 300, 400, 500] \<longrightarrow>
      p95Latency (ResponsiveMetricCards traces spans) = 500 \<and>
      avgLatency (ResponsiveMetricCards traces spans) = 300 \<and>
      p95Latency (TraceMetrics traces spans) = 500 \<and>
      avgLatency (TraceMetrics traces spans) = 300)"
proof -
  have idx: "percentileIndex (length traces) p < length (sort (map latency traces))"
    if "traces \<noteq> []" "0 \<le> p" "p < 1" for p
    using percentileIndex_less [of "length traces" p] that by simp
  have gen: "p95Latency (ResponsiveMetricCards traces spans) =
        of_int (sort (map latency traces) ! nat \<lfloor>(95 / 100 :: rat) * of_nat (length traces)\<rfloor>) \<and>
      p99Latency (ResponsiveMetricCards traces spans) =
        of_int (sort (map latency traces) ! nat \<lfloor>(99 / 100 :: rat) * of_nat (length traces)\<rfloor>) \<and>
      p95Latency (TraceMetrics traces spans) =
        of_int (sort (map latency traces) ! nat \<lfloor>(95 / 100 :: rat) * of_nat (length traces)\<rfloor>)"
    if ne: "traces \<noteq> []"
  proof -
    have i95: "percentileIndex (length traces) (95 / 100) < length (sort (map latency traces))"
      using idx [OF ne, of "95 / 100"] by simp
    have i99: "percentileIndex (length traces) (99 / 100) < length (sort (map latency traces))"
      using idx [OF ne, of "99 / 100"] by simp
    have e: "percentileIndex (length traces) p = nat \<lfloor>p * of_nat (length traces)\<rfloor>" for p
      by (simp add: percentileIndex_def mult.commute)
    show ?thesis
      using ne at_or_zero_in_range [OF i95] at_or_zero_in_range [OF i99]
      by (simp add: ResponsiveMetricCards_def TraceMetrics_def Let_def js_sort_minus e)
  qed
  have empty: "p95Latency (ResponsiveMetricCards [] spans) = 0 \<and>
     p99Latency (ResponsiveMetricCards [] spans) = 0 \<and> p95Latency (TraceMetrics [] spans) = 0"
    by (simp add: ResponsiveMetricCards_def TraceMetrics_def)
  have scen: "p95Latency (ResponsiveMetricCards traces spans) = 500 \<and>
      avgLatency (ResponsiveMetricCards traces spans) = 300 \<and>
      p95Latency (TraceMetrics traces spans) = 500 \<and>
      avgLatency (TraceMetrics traces spans) = 300"
    if m: "map latency traces = [100, 200, 300, 400, 500]"
  proof -
    have ne: "traces \<noteq> []" using m by auto
    have len: "length traces = 5" using arg_cong [OF m, of length] by simp
    have "\<lfloor>(95 / 100 :: rat) * 5\<rfloor> = 4" by (simp add: floor_eq_iff)
    then have fl: "nat \<lfloor>(95 / 100 :: rat) * of_nat 5\<rfloor> = 4" by simp
    have srt: "sort (map latency traces) = [100, 200, 300, 400, 500]" by (simp add: m)
    have avg: "avgLatency (ResponsiveMetricCards traces spans) = 300"
       "avgLatency (TraceMetrics traces spans) = 300"
      using ne len by (simp_all add: ResponsiveMetricCards_def TraceMetrics_def Let_def m)
    have "p95Latency (ResponsiveMetricCards traces spans) = 500"
      "p95Latency (TraceMetrics traces spans) = 500"
      using gen [OF ne] unfolding len srt fl by simp_all
    then show ?thesis using avg by simp
  qed
  show ?thesis using gen empty scen by blast
qed

theorem percentile_nearest_rank_witness:
  "map2 summary [0, 0, 0, 0, 0] [100, 200, 300, 400, 500] \<noteq> [] \<and>
   map latency (map2 summary [0, 0, 0, 0, 0] [100, 200, 300, 400, 500]) = [100, 200, 300, 400, 500] \<and>
   p95Latency (ResponsiveMetricCards (map2 summary [0, 0, 0, 0, 0] [100, 200, 300, 400, 500]) []) = 500 \<and>
   p99Latency (ResponsiveMetricCards (map2 summary [0, 0, 0, 0, 0] [100, 200, 300, 400, 500]) []) = 500 \<and>
   avgLatency (ResponsiveMetricCards (map2 summary [0, 0, 0, 0, 0] [100, 200, 300, 400, 500]) []) = 300"
proof -
  let ?ts = "map2 summary [0, 0, 0, 0, 0] [100, 200, 300, 400, 500]"
  have h1: "?ts \<noteq> []" by simp
  have h2: "map latency ?ts = [100, 200, 300, 400, 500]" by (simp add: summary_def latency_def)
  have "\<lfloor>(99 / 100 :: rat) * 5\<rfloor> = 4" by (simp add: floor_eq_iff)
  then have fl: "nat \<lfloor>(99 / 100 :: rat) * of_nat (length ?ts)\<rfloor> = 4" by simp
  note T = percentile_nearest_rank [of ?ts "[]"]
  from T h2 have a: "p95Latency (ResponsiveMetricCards ?ts []) = 500"
    "avgLatency (ResponsiveMetricCards ?ts []) = 300" by blast+
  from T h1 have "p99Latency (ResponsiveMetricCards ?ts []) =
      of_int (sort (map latency ?ts) ! nat \<lfloor>(99 / 100 :: rat) * of_nat (length ?ts)\<rfloor>)" by blast
  then have b: "p99Latency (ResponsiveMetricCards ?ts []) = 500" unfolding fl h2 by simp
  show ?thesis using h1 h2 a b by blast
qed

text \<open>
  C8. The claim: \<open>errorRate\<close> is the share of spans with status \<^verbatim>\<open>ERROR\<close> times 100
  (0 without spans) also when the trace-summary input is empty, and \<open>successRate\<close> and
  \<open>errorRate\<close> sum to 100. Both components return the all-zero record as soon as the
  trace-summary list is empty, before the spans are looked at: with no trace summary and
  one \<^verbatim>\<open>ERROR\<close> span the error rate is 0 and not 100, and the two rates sum to 0.
\<close>

theorem errorRate_lost_without_traces:
  "errorRate (ResponsiveMetricCards [] [mkSpan ''s'' None ''ERROR'' 0 10]) = 0 \<and>
   successRate (ResponsiveMetricCards [] [mkSpan ''s'' None ''ERROR'' 0 10]) = 0 \<and>
   errorRate (TraceMetrics [] [mkSpan ''s'' None ''ERROR'' 0 10]) = 0 \<and>
   errorRate_of [mkSpan ''s'' None ''ERROR'' 0 10] = 100"
  by (simp add: ResponsiveMetricCards_def TraceMetrics_def errorRate_of_def errorCount_def mkSpan_def)

text \<open>With at least one trace summary the rates are the ones of the span list.\<close>

lemma errorRate_with_traces:
  "traces \<noteq> [] \<Longrightarrow>
     errorRate (ResponsiveMetricCards traces spans) = errorRate_of spans \<and>
     errorRate (TraceMetrics traces spans) = errorRate_of spans \<and>
     errorRate (ResponsiveMetricCards traces spans) + successRate (ResponsiveMetricCards traces spans) = 100"
  by (simp add: ResponsiveMetricCards_def TraceMetrics_def Let_def)

section \<open>Properties of the filter engine\<close>

lemma js_le_NaN [simp]: "js_le x NaN = False" "js_le NaN x = False"
  by (cases x; simp)+

lemma js_sort_Nil [simp]: "js_sort cmp [] = []"
  by (simp add: js_sort_def)

lemma filters_Nil [simp]:
  "searchFilter f [] = []" "minDurationFilter f [] = []" "maxDurationFilter f [] = []"
  "sessionFilter f [] = []" "statusFilter f [] = []" "statusFilter_simple f [] = []"
  "dateFilter now f [] = []" "dateFilter_simple now f [] = []"
  by (simp_all add: searchFilter_def minDurationFilter_def maxDurationFilter_def
      sessionFilter_def statusFilter_def statusFilter_simple_def dateFilter_def
      dateFilter_simple_def Let_def)

lemma minDuration_NaN:
  "minDuration f \<noteq> [] \<Longrightarrow> parseFloat (minDuration f) = NaN \<Longrightarrow> minDurationFilter f ts = []"
  by (simp add: minDurationFilter_def)

lemma maxDuration_NaN:
  "maxDuration f \<noteq> [] \<Longrightarrow> parseFloat (maxDuration f) = NaN \<Longrightarrow> maxDurationFilter f ts = []"
  by (simp add: maxDurationFilter_def)

text \<open>A no-break space (U+00A0) in front of a number is skipped, as in JavaScript.\<close>

lemma parseFloat_skips_nbsp: "parseFloat [CHR 0xC2, CHR 0xA0, CHR ''5'', CHR ''0''] = Num 50"
  by (simp add: parseFloat_def is_digit_def digits_val_def exponent_part_def scale10_def)

text \<open>
  C3, as the code has it. A non-empty duration bound that \<^verbatim>\<open>parseFloat\<close> maps to \<^verbatim>\<open>NaN\<close>
  (such as \<^verbatim>\<open>abc\<close>) is not ignored: every comparison with \<^verbatim>\<open>NaN\<close> is false, so both filter
  engines return the empty list, whatever the other filters are. Nothing is thrown: the
  functions are total.
\<close>

theorem non_numeric_bound_rejects_all:
  assumes "(minDuration f \<noteq> [] \<and> parseFloat (minDuration f) = NaN) \<or>
           (maxDuration f \<noteq> [] \<and> parseFloat (maxDuration f) = NaN)"
  shows "filteredTraces now f traces = [] \<and> filteredTraces_simple now f traces = []"
  using assms
  by (auto simp: filteredTraces_def filteredTraces_simple_def minDuration_NaN maxDuration_NaN)

theorem non_numeric_bound_rejects_all_witness:
  "minDuration (initialFilters\<lparr>minDuration := ''abc''\<rparr>) \<noteq> [] \<and>
   parseFloat (minDuration (initialFilters\<lparr>minDuration := ''abc''\<rparr>)) = NaN \<and>
   filteredTraces 0 (initialFilters\<lparr>minDuration := ''abc''\<rparr>) [summary 0 100] = [] \<and>
   filteredTraces_simple 0 (initialFilters\<lparr>minDuration := ''abc''\<rparr>) [summary 0 100] = []"
proof -
  have h: "minDuration (initialFilters\<lparr>minDuration := ''abc''\<rparr>) \<noteq> [] \<and>
     parseFloat (minDuration (initialFilters\<lparr>minDuration := ''abc''\<rparr>)) = NaN"
    by (simp add: initialFilters_def parseFloat_def is_digit_def)
  then show ?thesis
    using non_numeric_bound_rejects_all [of "initialFilters\<lparr>minDuration := ''abc''\<rparr>" 0 "[summary 0 100]"]
    by blast
qed

text \<open>
  C3 as stated fails: with \<^verbatim>\<open>minDuration = "abc"\<close> and no other filter the result is empty,
  while without the bound it is the whole list.
\<close>

theorem non_numeric_bound_counterexample:
  "filteredTraces 0 (initialFilters\<lparr>minDuration := ''abc''\<rparr>) [summary 0 100] = [] \<and>
   filteredTraces 0 initialFilters [summary 0 100] = [summary 0 100] \<and>
   filteredTraces_simple 0 (initialFilters\<lparr>minDuration := ''abc''\<rparr>) [summary 0 100] = [] \<and>
   filteredTraces_simple 0 initialFilters [summary 0 100] = [summary 0 100]"
  by (simp add: filteredTraces_def filteredTraces_simple_def initialFilters_def
      searchFilter_def minDurationFilter_def maxDurationFilter_def sessionFilter_def
      statusFilter_def statusFilter_simple_def dateFilter_def dateFilter_simple_def
      parseFloat_def is_digit_def js_sort_def)

lemma set_js_insert: "set (js_insert cmp x ys) = insert x (set ys)"
  by (induction ys) auto

lemma set_js_sort [simp]: "set (js_sort cmp xs) = set xs"
  by (induction xs) (simp_all add: js_sort_def set_js_insert)

lemma status_only:
  "st \<noteq> ''all'' \<Longrightarrow>
   set (filteredTraces now (initialFilters\<lparr>status := st\<rparr>) traces) =
     {t \<in> set traces. statusMatches st t}"
  by (auto simp: filteredTraces_def initialFilters_def searchFilter_def minDurationFilter_def
      maxDurationFilter_def sessionFilter_def statusFilter_def dateFilter_def)

text \<open>
  C7, as the code has it. With only the status filter set, \<^verbatim>\<open>success\<close> keeps the traces
  whose duration is at most 5000 ms, \<^verbatim>\<open>slow\<close> those above 5000 ms and at most 15000 ms, and
  \<^verbatim>\<open>error\<close> those strictly above 15000 ms: each threshold belongs to the lower bucket.
\<close>

theorem status_buckets:
  "set (filteredTraces now (initialFilters\<lparr>status := ''success''\<rparr>) traces) =
     {t \<in> set traces. latency t \<le> 5000} \<and>
   set (filteredTraces now (initialFilters\<lparr>status := ''slow''\<rparr>) traces) =
     {t \<in> set traces. 5000 < latency t \<and> latency t \<le> 15000} \<and>
   set (filteredTraces now (initialFilters\<lparr>status := ''error''\<rparr>) traces) =
     {t \<in> set traces. 15000 < latency t}"
  by (simp add: status_only statusMatches_def latency_def Let_def)

text \<open>
  C7 as stated fails: a trace whose duration is exactly the high threshold, 15000 ms, is
  not in the \<^verbatim>\<open>error\<close> bucket; it is in the \<^verbatim>\<open>slow\<close> bucket.
\<close>

theorem status_buckets_counterexample:
  "latency (summary 0 15000) = 15000 \<and>
   filteredTraces 0 (initialFilters\<lparr>status := ''error''\<rparr>) [summary 0 15000] = [] \<and>
   filteredTraces 0 (initialFilters\<lparr>status := ''slow''\<rparr>) [summary 0 15000] = [summary 0 15000]"
  by (simp add: filteredTraces_def initialFilters_def searchFilter_def minDurationFilter_def
      maxDurationFilter_def sessionFilter_def statusFilter_def dateFilter_def
      statusMatches_def latency_def summary_def js_sort_def)

section \<open>Properties of the timeline layout\<close>

text \<open>
  C5. The claim: the denominator of the bar placement is at least 1 ms also for a
  zero-duration trace. \<^verbatim>\<open>maxTime\<close> is 1 for an empty span list only; for one span that starts
  and ends at the same instant it is 0, and \<^verbatim>\<open>0 / 0\<close> makes both the left offset and the bar
  width \<^verbatim>\<open>NaN\<close> (\<^verbatim>\<open>Math.max(2, NaN)\<close> is \<^verbatim>\<open>NaN\<close>). \<^verbatim>\<open>TraceGraph\<close> guards the same
  denominator with \<^verbatim>\<open>Math.max(1, ...)\<close>.
\<close>

theorem zero_duration_trace_not_guarded:
  "maxTime [mkSpan ''s'' None ''OK'' 5 5] = 0 \<and>
   barWidth (maxTime [mkSpan ''s'' None ''OK'' 5 5])
     (toTimelineSpan (minTime (mkSpan ''s'' None ''OK'' 5 5) []) (mkSpan ''s'' None ''OK'' 5 5)) = NaN \<and>
   barLeft (maxTime [mkSpan ''s'' None ''OK'' 5 5])
     (toTimelineSpan (minTime (mkSpan ''s'' None ''OK'' 5 5) []) (mkSpan ''s'' None ''OK'' 5 5)) = NaN \<and>
   maxTime [] = 1 \<and>
   scaleX_denominator 5 5 = 1"
  by (simp add: maxTime_def minTime_def barWidth_def barLeft_def toTimelineSpan_def mkSpan_def
      scaleX_denominator_def)

section \<open>Properties of the span tree builder\<close>

subsection \<open>The first loop\<close>

lemma map_of_map_set: "map_of (map_set m k v) = (map_of m)(k \<mapsto> v)"
  by (induction m k v rule: map_set.induct) (auto simp: fun_eq_iff)

lemma keys_map_set:
  "map fst (map_set m k v) = (if k \<in> set (map fst m) then map fst m else map fst m @ [k])"
  by (induction m k v rule: map_set.induct) auto

lemma distinct_keys_map_set: "distinct (map fst m) \<Longrightarrow> distinct (map fst (map_set m k v))"
  by (simp add: keys_map_set)

lemma fold_addSpan_snoc:
  "fold (addSpan minT) (xs @ [x]) st = addSpan minT x (fold (addSpan minT) xs st)"
  by simp

lemma fold_addSpan:
  "\<exists>m. fold (addSpan minT) xs (s0, []) = (s0 @ nodes_of minT xs, m) \<and>
       distinct (map fst m) \<and>
       set (map fst m) = span_id ` set xs \<and>
       (\<forall>k a. map_of m k = Some a \<longrightarrow>
          (\<exists>i<length xs. a = length s0 + i \<and> span_id (xs ! i) = k \<and>
             (\<forall>j. i < j \<and> j < length xs \<longrightarrow> span_id (xs ! j) \<noteq> k)))"
proof (induction xs rule: rev_induct)
  case Nil
  show ?case by (simp add: nodes_of_def)
next
  case (snoc x xs)
  then obtain m where m: "fold (addSpan minT) xs (s0, []) = (s0 @ nodes_of minT xs, m)"
    and d: "distinct (map fst m)" and ks: "set (map fst m) = span_id ` set xs"
    and last: "\<And>k a. map_of m k = Some a \<Longrightarrow>
          (\<exists>i<length xs. a = length s0 + i \<and> span_id (xs ! i) = k \<and>
             (\<forall>j. i < j \<and> j < length xs \<longrightarrow> span_id (xs ! j) \<noteq> k))"
    by blast
  let ?m = "map_set m (span_id x) (length s0 + length xs)"
  have step: "fold (addSpan minT) (xs @ [x]) (s0, []) = (s0 @ nodes_of minT (xs @ [x]), ?m)"
    by (simp add: m addSpan_def nodes_of_def)
  have d': "distinct (map fst ?m)" using d by (rule distinct_keys_map_set)
  have ks': "set (map fst ?m) = span_id ` set (xs @ [x])"
    using ks by (auto simp: keys_map_set)
  have last': "\<exists>i<length (xs @ [x]). a = length s0 + i \<and> span_id ((xs @ [x]) ! i) = k \<and>
             (\<forall>j. i < j \<and> j < length (xs @ [x]) \<longrightarrow> span_id ((xs @ [x]) ! j) \<noteq> k)"
    if h: "map_of ?m k = Some a" for k a
  proof (cases "k = span_id x")
    case True
    then have "a = length s0 + length xs" using h by (simp add: map_of_map_set)
    then show ?thesis using True by (intro exI [of _ "length xs"]) auto
  next
    case False
    then have "map_of m k = Some a" using h by (simp add: map_of_map_set)
    from last [OF this] obtain i where i: "i < length xs" "a = length s0 + i"
      "span_id (xs ! i) = k" "\<forall>j. i < j \<and> j < length xs \<longrightarrow> span_id (xs ! j) \<noteq> k" by blast
    have "\<forall>j. i < j \<and> j < length (xs @ [x]) \<longrightarrow> span_id ((xs @ [x]) ! j) \<noteq> k"
    proof (intro allI impI)
      fix j assume j: "i < j \<and> j < length (xs @ [x])"
      show "span_id ((xs @ [x]) ! j) \<noteq> k"
      proof (cases "j < length xs")
        case True then show ?thesis using i(4) j by (simp add: nth_append)
      next
        case False
        then have "j = length xs" using j by simp
        then show ?thesis using \<open>k \<noteq> span_id x\<close> by simp
      qed
    qed
    then show ?thesis using i by (intro exI [of _ i]) (simp add: nth_append)
  qed
  show ?case using step d' ks' last' by blast
qed

subsection \<open>Store updates\<close>

lemma node_at_upd_node:
  "node_at (upd_node a g s) b = (if b = a then map_option g (node_at s a) else node_at s b)"
  by (cases "b = a") (auto simp: node_at_def upd_node_def nth_list_update split: obj.splits)

lemma length_upd_node [simp]: "length (upd_node a g s) = length s"
  by (simp add: upd_node_def split: option.splits)

lemma children_at_upd_depth [simp]:
  "children_at (upd_node a (\<lambda>n. n\<lparr>depth := d\<rparr>) s) b = children_at s b"
  by (cases "node_at s a") (auto simp: children_at_def node_at_upd_node)

lemma children_at_upd_children:
  "children_at (upd_node a (\<lambda>n. n\<lparr>children := g (children n)\<rparr>) s) b =
     (if b = a \<and> node_at s a \<noteq> None then g (children_at s a) else children_at s b)"
  by (cases "node_at s a") (auto simp: children_at_def node_at_upd_node)

lemma agree_refl [simp]: "agree n n"
  by (simp add: agree_def)

lemma agree_trans: "agree n n' \<Longrightarrow> agree n' n'' \<Longrightarrow> agree n n''"
  by (simp add: agree_def)

lemma agree_upd [simp]: "agree n (n\<lparr>depth := d\<rparr>)" "agree n (n\<lparr>children := cs\<rparr>)"
  by (simp_all add: agree_def)

lemma agree_fields:
  assumes "agree n n'"
  shows "span_id n' = span_id n" "parent_span_id n' = parent_span_id n" "startMs n' = startMs n"
proof -
  have e: "n'\<lparr>depth := 0, children := []\<rparr> = n\<lparr>depth := 0, children := []\<rparr>"
    using assms by (simp add: agree_def)
  show "span_id n' = span_id n" using arg_cong [OF e, of span_id] by simp
  show "parent_span_id n' = parent_span_id n" using arg_cong [OF e, of parent_span_id] by simp
  show "startMs n' = startMs n" using arg_cong [OF e, of startMs] by simp
qed

lemma same_but_refl: "same_but V s s"
  by (simp add: same_but_def)

lemma same_but_length: "same_but V s s' \<Longrightarrow> length s' = length s"
  by (simp add: same_but_def)

lemma same_but_node_at:
  assumes "same_but V s s'"
  shows "node_at s' a = node_at s a \<or>
     (a \<in> V \<and> (\<exists>n n'. node_at s a = Some n \<and> node_at s' a = Some n' \<and> agree n n'))"
proof (cases "a < length s")
  case True
  from assms True have len: "a < length s'" by (simp add: same_but_def)
  from assms True have "s' ! a = s ! a \<or>
      (a \<in> V \<and> (\<exists>n n'. s ! a = NodeObj n \<and> s' ! a = NodeObj n' \<and> agree n n'))"
    unfolding same_but_def by blast
  then show ?thesis
  proof
    assume "s' ! a = s ! a"
    then show ?thesis using True len by (simp add: node_at_def)
  next
    assume "a \<in> V \<and> (\<exists>n n'. s ! a = NodeObj n \<and> s' ! a = NodeObj n' \<and> agree n n')"
    then show ?thesis using True len by (auto simp: node_at_def)
  qed
next
  case False
  then show ?thesis using assms unfolding same_but_def node_at_def by auto
qed

lemma same_but_node:
  assumes "same_but V s s'" "node_at s a = Some n"
  shows "\<exists>n'. node_at s' a = Some n' \<and> agree n n'"
  using same_but_node_at [OF assms(1), of a] assms(2) by (metis agree_refl option.inject)

lemma same_but_node_rev:
  assumes "same_but V s s'" "node_at s' a = Some n'"
  shows "\<exists>n. node_at s a = Some n \<and> agree n n'"
  using same_but_node_at [OF assms(1), of a] assms(2) by (metis agree_refl option.inject)

lemma same_but_upd:
  assumes sb: "same_but V s s'" and a: "a \<in> V" and g: "\<And>n. agree n (g n)"
  shows "same_but V s (upd_node a g s')"
proof (cases "node_at s' a")
  case None
  then show ?thesis using sb by (simp add: upd_node_def)
next
  case (Some n')
  then have al: "a < length s'" and sa: "s' ! a = NodeObj n'"
    by (auto simp: node_at_def split: if_splits obj.splits)
  have len: "length s' = length s" using sb by (simp add: same_but_def)
  from same_but_node_rev [OF sb Some] obtain n where n: "node_at s a = Some n" "agree n n'" by blast
  then have "s ! a = NodeObj n" by (auto simp: node_at_def split: if_splits obj.splits)
  moreover have "agree n (g n')" using n(2) g agree_trans by blast
  ultimately have "\<exists>n n''. s ! a = NodeObj n \<and> NodeObj (g n') = NodeObj n'' \<and> agree n n''" by blast
  then show ?thesis
    using sb a Some al len unfolding same_but_def upd_node_def
    by (auto simp: nth_list_update)
qed

lemma same_but_resolveParent:
  "same_but V s s' \<Longrightarrow> resolveParent m s' a = resolveParent m s a"
  using same_but_node_at [of V s s' a] by (auto simp: resolveParent_def dest: agree_fields(2))

lemma same_but_startMs:
  "same_but V s s' \<Longrightarrow> startMs_at s' a = startMs_at s a"
  using same_but_node_at [of V s s' a] by (auto simp: startMs_at_def dest: agree_fields(3))

lemma same_but_take:
  assumes "same_but V s s'" "\<forall>a\<in>V. k \<le> a"
  shows "take k s' = take k s"
proof (rule nth_equalityI)
  show "length (take k s') = length (take k s)" using assms by (simp add: same_but_def)
next
  fix i assume "i < length (take k s')"
  then have "i < k" "i < length s" using assms by (simp_all add: same_but_def)
  then have "s' ! i = s ! i" using assms unfolding same_but_def by fastforce
  then show "take k s' ! i = take k s ! i" using \<open>i < k\<close> by simp
qed

lemma resolveParent_in: "resolveParent m s a = Some p \<Longrightarrow> p \<in> snd ` set m"
  by (auto simp: resolveParent_def split: option.splits if_splits dest!: map_of_SomeD intro: rev_image_eqI)

subsection \<open>The second loop\<close>

lemma attach_step:
  assumes sb: "same_but V s1 s" and V: "V = snd ` set m" and a: "a \<in> V"
    and nodes: "\<forall>p\<in>V. node_at s p \<noteq> None"
    and roots: "roots = filter (\<lambda>x. resolveParent m s1 x = None) seen"
    and kids: "\<forall>p\<in>V. children_at s p = filter (\<lambda>x. resolveParent m s1 x = Some p) seen"
  shows "\<exists>s' roots'. attach m a (s, roots) = (s', roots') \<and> same_but V s1 s' \<and>
      (\<forall>p\<in>V. node_at s' p \<noteq> None) \<and>
      roots' = filter (\<lambda>x. resolveParent m s1 x = None) (seen @ [a]) \<and>
      (\<forall>p\<in>V. children_at s' p = filter (\<lambda>x. resolveParent m s1 x = Some p) (seen @ [a]))"
proof (cases "resolveParent m s1 a")
  case None
  then have "attach m a (s, roots) = (s, roots @ [a])"
    using same_but_resolveParent [OF sb, of m a] by (simp add: attach_def)
  then show ?thesis using sb nodes roots kids None by simp
next
  case (Some p)
  have pV: "p \<in> V" using resolveParent_in [OF Some] V by simp
  let ?s1 = "upd_node p (\<lambda>n. n\<lparr>children := children n @ [a]\<rparr>) s"
  let ?s2 = "upd_node a (\<lambda>n. n\<lparr>depth := depth_at ?s1 p + 1\<rparr>) ?s1"
  have att: "attach m a (s, roots) = (?s2, roots)"
    using same_but_resolveParent [OF sb, of m a] Some by (simp add: attach_def Let_def)
  have sb1: "same_but V s1 ?s1" by (rule same_but_upd [OF sb pV]) simp
  have sb2: "same_but V s1 ?s2" by (rule same_but_upd [OF sb1 a]) simp
  have n2: "\<forall>q\<in>V. node_at ?s2 q \<noteq> None" using nodes by (auto simp: node_at_upd_node)
  have pn: "node_at s p \<noteq> None" using nodes pV by blast
  have k2: "children_at ?s2 q = filter (\<lambda>x. resolveParent m s1 x = Some q) (seen @ [a])"
    if q: "q \<in> V" for q
  proof -
    have "children_at ?s2 q = children_at ?s1 q" by simp
    also have "\<dots> = (if q = p then children_at s p @ [a] else children_at s q)"
      using children_at_upd_children [of p "\<lambda>cs. cs @ [a]" s q] pn by simp
    also have "\<dots> = filter (\<lambda>x. resolveParent m s1 x = Some q) (seen @ [a])"
      using kids q pV Some by auto
    finally show ?thesis .
  qed
  show ?thesis using att sb2 n2 roots k2 Some by simp
qed

lemma fold_attach:
  assumes V: "V = snd ` set m"
  shows "same_but V s1 s \<Longrightarrow> set todo \<subseteq> V \<Longrightarrow> \<forall>p\<in>V. node_at s p \<noteq> None \<Longrightarrow>
    roots = filter (\<lambda>x. resolveParent m s1 x = None) seen \<Longrightarrow>
    \<forall>p\<in>V. children_at s p = filter (\<lambda>x. resolveParent m s1 x = Some p) seen \<Longrightarrow>
    \<exists>s' roots'. fold (attach m) todo (s, roots) = (s', roots') \<and> same_but V s1 s' \<and>
      (\<forall>p\<in>V. node_at s' p \<noteq> None) \<and>
      roots' = filter (\<lambda>x. resolveParent m s1 x = None) (seen @ todo) \<and>
      (\<forall>p\<in>V. children_at s' p = filter (\<lambda>x. resolveParent m s1 x = Some p) (seen @ todo))"
proof (induction todo arbitrary: s roots seen)
  case Nil
  then show ?case by simp
next
  case (Cons a todo)
  have a: "a \<in> V" using Cons.prems(2) by simp
  from attach_step [OF Cons.prems(1) V a Cons.prems(3) Cons.prems(4) Cons.prems(5)]
  obtain s' roots' where st: "attach m a (s, roots) = (s', roots')" "same_but V s1 s'"
      "\<forall>p\<in>V. node_at s' p \<noteq> None"
      "roots' = filter (\<lambda>x. resolveParent m s1 x = None) (seen @ [a])"
      "\<forall>p\<in>V. children_at s' p = filter (\<lambda>x. resolveParent m s1 x = Some p) (seen @ [a])"
    by blast
  have "set todo \<subseteq> V" using Cons.prems(2) by simp
  from Cons.IH [OF st(2) this st(3) st(4) st(5)] st(1) show ?case by simp
qed

subsection \<open>Array sort\<close>

lemma distinct_js_insert: "distinct (js_insert cmp x ys) = (x \<notin> set ys \<and> distinct ys)"
  by (induction ys) (auto simp: set_js_insert)

lemma distinct_js_sort [simp]: "distinct (js_sort cmp xs) = distinct xs"
proof (induction xs)
  case Nil
  show ?case by simp
next
  case (Cons x xs)
  have "js_sort cmp (x # xs) = js_insert cmp x (js_sort cmp xs)" by (simp add: js_sort_def)
  then show ?case using Cons by (simp add: distinct_js_insert)
qed

subsection \<open>Levels\<close>

lemma lvl_functional: "lvl par a d \<Longrightarrow> lvl par a d' \<Longrightarrow> d = d'"
proof (induction arbitrary: d' rule: lvl.induct)
  case (lvl_root a)
  from lvl_root.prems lvl_root.hyps show ?case by (cases rule: lvl.cases) simp_all
next
  case (lvl_child a p d)
  from lvl_child.prems show ?case
  proof (cases rule: lvl.cases)
    case lvl_root
    then show ?thesis using lvl_child.hyps by simp
  next
    case (lvl_child p' e)
    then have "lvl par p e" using lvl_child.hyps by simp
    then have "d = e" by (rule lvl_child.IH)
    then show ?thesis using lvl_child by simp
  qed
qed

lemma lvl_below:
  assumes closed: "\<And>x p. x \<in> V \<Longrightarrow> par x = Some p \<Longrightarrow> p \<in> V"
  shows "lvl par a d \<Longrightarrow> a \<in> V \<Longrightarrow> e \<le> d \<Longrightarrow> \<exists>x\<in>V. lvl par x e"
proof (induction rule: lvl.induct)
  case (lvl_root a)
  then have "lvl par a e" by (auto intro: lvl.lvl_root)
  then show ?case using lvl_root.prems by blast
next
  case (lvl_child a p d)
  show ?case
  proof (cases "e = Suc d")
    case True
    then show ?thesis using lvl.lvl_child [OF lvl_child.hyps] lvl_child.prems by blast
  next
    case False
    then have "e \<le> d" using lvl_child.prems by simp
    moreover have "p \<in> V" using closed lvl_child.hyps(1) lvl_child.prems(1) by blast
    ultimately show ?thesis using lvl_child.IH by blast
  qed
qed

lemma lvl_bound:
  assumes closed: "\<And>x p. x \<in> V \<Longrightarrow> par x = Some p \<Longrightarrow> p \<in> V"
    and fin: "finite V" and l: "lvl par a d" and a: "a \<in> V"
  shows "d < card V"
proof -
  have "\<exists>x. x \<in> V \<and> lvl par x e" if "e \<le> d" for e
    using lvl_below [of V par a d e, OF _ l a that] closed by blast
  then have "\<forall>e\<in>{..d}. \<exists>x. x \<in> V \<and> lvl par x e" by simp
  then have "\<exists>f. \<forall>e\<in>{..d}. f e \<in> V \<and> lvl par (f e) e" by (rule bchoice)
  then obtain f where f: "\<forall>e\<in>{..d}. f e \<in> V \<and> lvl par (f e) e" ..
  have "inj_on f {..d}"
  proof (rule inj_onI)
    fix x y assume x: "x \<in> {..d}" and y: "y \<in> {..d}" and e: "f x = f y"
    have "lvl par (f x) x" using f x by blast
    moreover have "lvl par (f y) y" using f y by blast
    ultimately show "x = y" using e lvl_functional [of par "f x" x y] by simp
  qed
  moreover have "f ` {..d} \<subseteq> V" using f by blast
  ultimately have "card {..d} \<le> card V" using fin card_inj_on_le by blast
  then show ?thesis by simp
qed

subsection \<open>Sorting\<close>

lemma children_at_upd_node:
  "children_at (upd_node a g s) b =
     (if b = a then (case node_at s a of Some n \<Rightarrow> children (g n) | None \<Rightarrow> []) else children_at s b)"
  by (cases "node_at s a") (auto simp: children_at_def node_at_upd_node)

lemma graph_okD:
  assumes "graph_ok m s1 s" "p \<in> snd ` set m"
  shows "node_at s p \<noteq> None" "distinct (children_at s p)"
    "set (children_at s p) = {c \<in> snd ` set m. resolveParent m s1 c = Some p}"
  using assms unfolding graph_ok_def by blast+

lemma graph_ok_same: "graph_ok m s1 s \<Longrightarrow> same_but (snd ` set m) s1 s"
  unfolding graph_ok_def by blast

lemma graph_ok_sorted:
  assumes g: "graph_ok m s1 s" and a: "a \<in> snd ` set m"
    and cs: "set cs = set (children_at s a)" "distinct cs"
  shows "graph_ok m s1 (upd_node a (\<lambda>n. n\<lparr>children := cs\<rparr>) s)"
proof -
  let ?s = "upd_node a (\<lambda>n. n\<lparr>children := cs\<rparr>) s"
  have sb: "same_but (snd ` set m) s1 ?s"
    using graph_ok_same [OF g] a by (auto intro: same_but_upd)
  have "node_at ?s p \<noteq> None \<and> distinct (children_at ?s p) \<and>
      set (children_at ?s p) = {c \<in> snd ` set m. resolveParent m s1 c = Some p}"
    if p: "p \<in> snd ` set m" for p
  proof -
    note old = graph_okD [OF g p]
    show ?thesis
    proof (cases "p = a")
      case True
      from old(1) True obtain n where n: "node_at s a = Some n" by auto
      have "children_at ?s a = cs" using n by (simp add: children_at_upd_node)
      then show ?thesis using True old cs n by (simp add: node_at_upd_node)
    next
      case False
      then show ?thesis using old by (simp add: children_at_upd_node node_at_upd_node)
    qed
  qed
  then show ?thesis using sb unfolding graph_ok_def by blast
qed

lemma graph_closed: "x \<in> snd ` set m \<Longrightarrow> resolveParent m s1 x = Some p \<Longrightarrow> p \<in> snd ` set m"
  by (rule resolveParent_in)

lemma graph_lvl_bound:
  "lvl (resolveParent m s1) a d \<Longrightarrow> a \<in> snd ` set m \<Longrightarrow> d < card (snd ` set m)"
  by (rule lvl_bound [where par = "resolveParent m s1" and V = "snd ` set m"])
     (auto intro: resolveParent_in)

lemma sort_total:
  "graph_ok m s1 s \<Longrightarrow> a \<in> snd ` set m \<Longrightarrow> lvl (resolveParent m s1) a d \<Longrightarrow>
     card (snd ` set m) \<le> fuel + d \<Longrightarrow>
     \<exists>s'. sortChildren fuel s a = Some s' \<and> graph_ok m s1 s'"
  "graph_ok m s1 s \<Longrightarrow> set cs \<subseteq> snd ` set m \<Longrightarrow> \<forall>c\<in>set cs. lvl (resolveParent m s1) c e \<Longrightarrow>
     card (snd ` set m) \<le> fuel + e \<Longrightarrow>
     \<exists>s'. sortEach fuel s cs = Some s' \<and> graph_ok m s1 s'"
proof (induction fuel s a and fuel s cs arbitrary: d and e rule: sortChildren_sortEach.induct)
  case (1 s a)
  then show ?case using graph_lvl_bound [of m s1 a d] by simp
next
  case (2 fuel s a)
  let ?sorted = "js_sort (compareStart s) (children_at s a)"
  let ?s = "upd_node a (\<lambda>n. n\<lparr>children := ?sorted\<rparr>) s"
  have "distinct (children_at s a)" using graph_okD(2) [OF "2.prems"(1,2)] .
  then have g: "graph_ok m s1 ?s"
    using graph_ok_sorted [OF "2.prems"(1,2), of ?sorted] by simp
  have kids: "set ?sorted = {c \<in> snd ` set m. resolveParent m s1 c = Some a}"
    using graph_okD(3) [OF "2.prems"(1,2)] by simp
  then have sub: "set ?sorted \<subseteq> snd ` set m" by blast
  have lv: "\<forall>c\<in>set ?sorted. lvl (resolveParent m s1) c (Suc d)"
    using kids "2.prems"(3) by (auto intro: lvl.lvl_child)
  have "card (snd ` set m) \<le> fuel + Suc d" using "2.prems"(4) by simp
  from "2.IH" [OF refl refl g sub lv this] show ?case by (simp add: Let_def)
next
  case (3 fuel s)
  then show ?case by simp
next
  case (4 fuel s c cs)
  have c: "c \<in> snd ` set m" "lvl (resolveParent m s1) c e" using "4.prems" by auto
  from "4.IH"(1) [OF "4.prems"(1) c "4.prems"(4)]
  obtain s' where s': "sortChildren fuel s c = Some s'" "graph_ok m s1 s'" by blast
  have "set cs \<subseteq> snd ` set m" "\<forall>c\<in>set cs. lvl (resolveParent m s1) c e"
    using "4.prems" by auto
  from "4.IH"(2) [OF s'(1) s'(2) this "4.prems"(4)] show ?case using s'(1) by simp
qed

subsection \<open>Materialisation\<close>

lemma forest_refs_Cons: "forest_refs (t # ts) = forest_refs [t] @ forest_refs ts"
  by (cases t) simp

lemma forest_refs_tree: "forest_refs [TSpan a n ks] = a # forest_refs ks"
  by simp

lemma set_forest_refs: "set (forest_refs ts) = (\<Union>t\<in>set ts. set (forest_refs [t]))"
proof (induction ts)
  case Nil
  show ?case by simp
next
  case (Cons t ts)
  show ?case using Cons forest_refs_Cons [of t ts] by simp
qed

lemma those_map_total:
  assumes "\<forall>c\<in>set cs. \<exists>t. f c = Some t \<and> ref t = c \<and> Q t"
  shows "\<exists>ks. those (map f cs) = Some ks \<and> map ref ks = cs \<and> list_all Q ks"
  using assms
proof (induction cs)
  case Nil
  show ?case by simp
next
  case (Cons c cs)
  then obtain t ks where "f c = Some t" "ref t = c" "Q t"
    "those (map f cs) = Some ks" "map ref ks = cs" "list_all Q ks" by auto
  then show ?case by simp
qed

lemma mat_total:
  "graph_ok m s1 s \<Longrightarrow> a \<in> snd ` set m \<Longrightarrow> lvl (resolveParent m s1) a d \<Longrightarrow>
     card (snd ` set m) \<le> fuel + d \<Longrightarrow>
     \<exists>t. materialize fuel s a = Some t \<and> ref t = a \<and>
         (wf_tree (resolveParent m s1) s (resolveParent m s1 a) t \<and>
          set (forest_refs [t]) \<subseteq> snd ` set m)"
proof (induction fuel arbitrary: a d)
  case 0
  then show ?case using graph_lvl_bound [of m s1 a d] by simp
next
  case (Suc fuel)
  let ?par = "resolveParent m s1"
  let ?V = "snd ` set m"
  note gd = graph_okD [OF Suc.prems(1,2)]
  from gd(1) obtain n where n: "node_at s a = Some n" by auto
  then have cn: "children n = children_at s a" by (simp add: children_at_def)
  have kid: "\<exists>t. materialize fuel s c = Some t \<and> ref t = c \<and>
      (wf_tree ?par s (Some a) t \<and> set (forest_refs [t]) \<subseteq> ?V)"
    if c: "c \<in> set (children n)" for c
  proof -
    have cV: "c \<in> ?V" and pc: "?par c = Some a" using c cn gd(3) by auto
    have "lvl ?par c (Suc d)" using pc Suc.prems(3) by (rule lvl.lvl_child)
    moreover have "card ?V \<le> fuel + Suc d" using Suc.prems(4) by simp
    ultimately show ?thesis using Suc.IH [OF Suc.prems(1) cV] pc by fastforce
  qed
  then have "\<forall>c\<in>set (children n). \<exists>t. materialize fuel s c = Some t \<and> ref t = c \<and>
      (wf_tree ?par s (Some a) t \<and> set (forest_refs [t]) \<subseteq> ?V)" by blast
  from those_map_total [OF this]
  obtain ks where ks: "those (map (materialize fuel s) (children n)) = Some ks"
    "map ref ks = children n"
    "list_all (\<lambda>t. wf_tree ?par s (Some a) t \<and> set (forest_refs [t]) \<subseteq> ?V) ks" by blast
  have m: "materialize (Suc fuel) s a = Some (TSpan a n ks)" using n ks(1) by simp
  have wf: "wf_tree ?par s (?par a) (TSpan a n ks)"
    using n ks(2,3) gd(2) cn by (simp add: list_all_iff)
  have "set (forest_refs ks) \<subseteq> ?V"
    using ks(3) set_forest_refs [of ks] by (auto simp: list_all_iff)
  then have "set (forest_refs [TSpan a n ks]) \<subseteq> ?V" using Suc.prems(2) by simp
  then show ?case using m wf by simp
qed

subsection \<open>The nodes of a forest are distinct objects\<close>

lemma ancestor_Suc_right:
  "ancestor par (Suc j) x = (case ancestor par j x of None \<Rightarrow> None | Some y \<Rightarrow> par y)"
proof (induction j arbitrary: x)
  case 0
  show ?case by (simp split: option.splits)
next
  case (Suc j)
  show ?case
  proof (cases "par x")
    case None
    then show ?thesis by simp
  next
    case (Some p)
    have "ancestor par (Suc (Suc j)) x = ancestor par (Suc j) p" using Some by simp
    also have "\<dots> = (case ancestor par j p of None \<Rightarrow> None | Some y \<Rightarrow> par y)" by (rule Suc)
    also have "ancestor par j p = ancestor par (Suc j) x" using Some by simp
    finally show ?thesis .
  qed
qed

lemma refs_lvl:
  "wf_tree par s P t \<Longrightarrow> lvl par (ref t) d \<Longrightarrow> x \<in> set (forest_refs [t]) \<Longrightarrow>
     \<exists>j. lvl par x (d + j) \<and> ancestor par j x = Some (ref t)"
proof (induction t arbitrary: P d)
  case (TSpan a n ks)
  from TSpan.prems(3) consider "x = a" | "x \<in> set (forest_refs ks)" by auto
  then show ?case
  proof cases
    case 1
    then show ?thesis using TSpan.prems(2) by (intro exI [of _ 0]) simp
  next
    case 2
    then obtain k where k: "k \<in> set ks" "x \<in> set (forest_refs [k])"
      using set_forest_refs [of ks] by auto
    have wk: "wf_tree par s (Some a) k" using TSpan.prems(1) k(1) by (simp add: list_all_iff)
    then have pk: "par (ref k) = Some a" by (cases k) simp
    have "lvl par (ref k) (Suc d)" using pk TSpan.prems(2) by (auto intro: lvl.lvl_child)
    from TSpan.IH [OF k(1) wk this k(2)]
    obtain j where j: "lvl par x (Suc d + j)" "ancestor par j x = Some (ref k)" by blast
    have "ancestor par (Suc j) x = Some a" using j(2) pk by (simp add: ancestor_Suc_right del: ancestor.simps)
    then show ?thesis using j(1) by (intro exI [of _ "Suc j"]) simp
  qed
qed

lemma siblings_distinct:
  assumes "list_all (wf_tree par s P) ts" "distinct (map ref ts)"
    "\<forall>t\<in>set ts. lvl par (ref t) d" "\<forall>t\<in>set ts. distinct (forest_refs [t])"
  shows "distinct (forest_refs ts)"
  using assms
proof (induction ts)
  case Nil
  show ?case by simp
next
  case (Cons t ts)
  have rest: "distinct (forest_refs ts)" using Cons by simp
  have "set (forest_refs [t]) \<inter> set (forest_refs ts) = {}"
  proof (rule ccontr)
    assume "set (forest_refs [t]) \<inter> set (forest_refs ts) \<noteq> {}"
    then obtain x u where x: "x \<in> set (forest_refs [t])" "u \<in> set ts" "x \<in> set (forest_refs [u])"
      using set_forest_refs [of ts] by auto
    have wt: "wf_tree par s P t" "lvl par (ref t) d" using Cons.prems by simp_all
    have wu: "wf_tree par s P u" "lvl par (ref u) d" using Cons.prems x(2) by (simp_all add: list_all_iff)
    from refs_lvl [OF wt x(1)] obtain j where j: "lvl par x (d + j)" "ancestor par j x = Some (ref t)" by blast
    from refs_lvl [OF wu x(3)] obtain j' where j': "lvl par x (d + j')" "ancestor par j' x = Some (ref u)" by blast
    have "j = j'" using lvl_functional [OF j(1) j'(1)] by simp
    then have "ref t = ref u" using j(2) j'(2) by simp
    then show False using Cons.prems(2) x(2) by auto
  qed
  then show ?case using rest Cons.prems(4) forest_refs_Cons [of t ts] by simp
qed

lemma tree_distinct:
  "wf_tree par s P t \<Longrightarrow> lvl par (ref t) d \<Longrightarrow> distinct (forest_refs [t])"
proof (induction t arbitrary: P d)
  case (TSpan a n ks)
  have wk: "list_all (wf_tree par s (Some a)) ks" and dk: "distinct (map ref ks)"
    and pa: "par a = P"
    using TSpan.prems(1) by simp_all
  have lk: "\<forall>k\<in>set ks. lvl par (ref k) (Suc d)"
  proof
    fix k assume k: "k \<in> set ks"
    then have "wf_tree par s (Some a) k" using wk by (simp add: list_all_iff)
    then have "par (ref k) = Some a" by (cases k) simp
    then show "lvl par (ref k) (Suc d)" using TSpan.prems(2) by (auto intro: lvl.lvl_child)
  qed
  have each: "\<forall>k\<in>set ks. distinct (forest_refs [k])"
  proof
    fix k assume k: "k \<in> set ks"
    then have "wf_tree par s (Some a) k" using wk by (simp add: list_all_iff)
    moreover have "lvl par (ref k) (Suc d)" using lk k by blast
    ultimately show "distinct (forest_refs [k])" using TSpan.IH [OF k] by blast
  qed
  have dks: "distinct (forest_refs ks)" by (rule siblings_distinct [OF wk dk lk each])
  have "a \<notin> set (forest_refs ks)"
  proof
    assume "a \<in> set (forest_refs ks)"
    then obtain k where k: "k \<in> set ks" "a \<in> set (forest_refs [k])"
      using set_forest_refs [of ks] by auto
    have "wf_tree par s (Some a) k" using wk k(1) by (simp add: list_all_iff)
    from refs_lvl [OF this _ k(2)] lk k(1)
    obtain j where "lvl par a (Suc d + j)" by blast
    then show False using lvl_functional [of par a d "Suc d + j"] TSpan.prems(2) by simp
  qed
  then show ?case using dks by simp
qed

subsection \<open>The index after the first loop\<close>

lemma node_at_append_nodes:
  "i < length xs \<Longrightarrow> node_at (s0 @ nodes_of minT xs) (length s0 + i) = Some (toTimelineSpan minT (xs ! i))"
  by (simp add: node_at_def nodes_of_def nth_append)

lemma index_facts:
  assumes b: "buildIndex s0 spans = (s1, m)" and ne: "spans \<noteq> []"
  defines "minT \<equiv> minTime (hd spans) (tl spans)"
  shows "s1 = s0 @ nodes_of minT spans"
    and "distinct (map fst m)"
    and "set (map fst m) = span_id ` set spans"
    and "\<And>k a. map_of m k = Some a \<Longrightarrow>
          (\<exists>i<length spans. a = length s0 + i \<and> span_id (spans ! i) = k \<and>
             (\<forall>j. i < j \<and> j < length spans \<longrightarrow> span_id (spans ! j) \<noteq> k))"
proof -
  from ne obtain sp rest where sp: "spans = sp # rest" by (cases spans) auto
  have "buildIndex s0 spans = fold (addSpan minT) spans (s0, [])"
    unfolding minT_def by (simp add: buildIndex_def sp)
  with b have f: "fold (addSpan minT) spans (s0, []) = (s1, m)" by simp
  from fold_addSpan [of minT spans s0] f
  show "s1 = s0 @ nodes_of minT spans" "distinct (map fst m)"
    "set (map fst m) = span_id ` set spans"
    "\<And>k a. map_of m k = Some a \<Longrightarrow>
          (\<exists>i<length spans. a = length s0 + i \<and> span_id (spans ! i) = k \<and>
             (\<forall>j. i < j \<and> j < length spans \<longrightarrow> span_id (spans ! j) \<noteq> k))"
    by auto
qed

lemma index_nodes:
  assumes b: "buildIndex s0 spans = (s1, m)" and ne: "spans \<noteq> []" and ka: "(k, a) \<in> set m"
  shows "\<exists>i<length spans. a = length s0 + i \<and> span_id (spans ! i) = k \<and>
     (\<forall>j. i < j \<and> j < length spans \<longrightarrow> span_id (spans ! j) \<noteq> k) \<and>
     node_at s1 a = Some (toTimelineSpan (minTime (hd spans) (tl spans)) (spans ! i))"
proof -
  note f = index_facts [OF b ne]
  have "map_of m k = Some a" using f(2) ka by simp
  from f(4) [OF this] obtain i where i: "i < length spans" "a = length s0 + i"
    "span_id (spans ! i) = k" "\<forall>j. i < j \<and> j < length spans \<longrightarrow> span_id (spans ! j) \<noteq> k" by blast
  have "node_at s1 a = Some (toTimelineSpan (minTime (hd spans) (tl spans)) (spans ! i))"
    using i(1,2) f(1) by (simp add: node_at_append_nodes)
  then show ?thesis using i by blast
qed

lemma span_id_toTimelineSpan [simp]:
  "span_id (toTimelineSpan minT sp) = span_id sp"
  "parent_span_id (toTimelineSpan minT sp) = parent_span_id sp"
  "children (toTimelineSpan minT sp) = []"
  "depth (toTimelineSpan minT sp) = 0"
  by (simp_all add: toTimelineSpan_def Let_def)

lemma index_key:
  assumes b: "buildIndex s0 spans = (s1, m)" and ne: "spans \<noteq> []" and ka: "(k, a) \<in> set m"
  shows "\<exists>n. node_at s1 a = Some n \<and> span_id n = k \<and> children n = [] \<and> length s0 \<le> a"
  using index_nodes [OF b ne ka] by auto

lemma index_inj:
  assumes b: "buildIndex s0 spans = (s1, m)" and ne: "spans \<noteq> []"
  shows "distinct (map snd m)"
proof -
  note f = index_facts [OF b ne]
  have dm: "distinct m" using f(2) by (rule distinct_map [THEN iffD1, THEN conjunct1])
  have "inj_on snd (set m)"
  proof (rule inj_onI)
    fix x y assume x: "x \<in> set m" and y: "y \<in> set m" and e: "snd x = snd y"
    obtain k a where xa: "x = (k, a)" by (cases x)
    obtain k' a' where ya: "y = (k', a')" by (cases y)
    from index_key [OF b ne] x xa obtain n where "node_at s1 a = Some n" "span_id n = k" by blast
    moreover from index_key [OF b ne] y ya obtain n' where "node_at s1 a' = Some n'" "span_id n' = k'" by blast
    ultimately show "x = y" using e xa ya by simp
  qed
  then show ?thesis using dm by (simp add: distinct_map)
qed

lemma index_card:
  assumes b: "buildIndex s0 spans = (s1, m)" and ne: "spans \<noteq> []"
  shows "card (snd ` set m) = card (span_id ` set spans)" "card (snd ` set m) \<le> length spans"
proof -
  note f = index_facts [OF b ne]
  have "card (snd ` set m) = length (map snd m)"
    using index_inj [OF b ne] distinct_card [of "map snd m"] by simp
  also have "\<dots> = length (map fst m)" by simp
  also have "\<dots> = card (set (map fst m))" using f(2) distinct_card [of "map fst m"] by simp
  finally show c: "card (snd ` set m) = card (span_id ` set spans)" using f(3) by simp
  have "card (span_id ` set spans) \<le> card (set spans)" by (rule card_image_le) simp
  also have "\<dots> \<le> length spans" by (rule card_length)
  finally show "card (snd ` set m) \<le> length spans" using c by simp
qed

subsection \<open>The graph after the second loop\<close>

lemma linkAll_graph:
  assumes b: "buildIndex s0 spans = (s1, m)" and ne: "spans \<noteq> []"
  shows "\<exists>s2 roots. linkAll m s1 = (s2, roots) \<and> graph_ok m s1 s2 \<and>
     roots = filter (\<lambda>x. resolveParent m s1 x = None) (map snd m)"
proof -
  let ?V = "snd ` set m"
  have nodes: "\<forall>p\<in>?V. node_at s1 p \<noteq> None" using index_key [OF b ne] by fastforce
  have kids0: "\<forall>p\<in>?V. children_at s1 p = filter (\<lambda>x. resolveParent m s1 x = Some p) []"
    using index_key [OF b ne] by (fastforce simp: children_at_def)
  from fold_attach [where V = ?V and m = m and ?s1.0 = s1 and s = s1 and todo = "map snd m"
      and roots = "[]" and seen = "[]", OF refl same_but_refl _ nodes _ kids0]
  obtain s2 roots where r: "fold (attach m) (map snd m) (s1, []) = (s2, roots)"
     "same_but ?V s1 s2" "\<forall>p\<in>?V. node_at s2 p \<noteq> None"
     "roots = filter (\<lambda>x. resolveParent m s1 x = None) (map snd m)"
     "\<forall>p\<in>?V. children_at s2 p = filter (\<lambda>x. resolveParent m s1 x = Some p) (map snd m)"
    by auto
  have d: "distinct (map snd m)" by (rule index_inj [OF b ne])
  have "graph_ok m s1 s2"
    unfolding graph_ok_def using r(2,3,5) d by auto
  then show ?thesis using r(1,4) by (simp add: linkAll_def)
qed

subsection \<open>The whole build\<close>

lemma spanTree_main:
  assumes b: "buildIndex s0 spans = (s1, m)" and ne: "spans \<noteq> []" and fuel: "length spans \<le> fuel"
  shows "\<exists>s roots F. spanTree fuel s0 spans = Some (s, roots) \<and> forest fuel (s, roots) = Some F \<and>
     graph_ok m s1 s \<and> set roots = {a \<in> snd ` set m. resolveParent m s1 a = None} \<and>
     map ref F = roots \<and> list_all (wf_tree (resolveParent m s1) s None) F \<and>
     distinct (forest_refs F) \<and> set (forest_refs F) \<subseteq> snd ` set m"
proof -
  let ?V = "snd ` set m"
  let ?par = "resolveParent m s1"
  from linkAll_graph [OF b ne] obtain s2 roots2 where l: "linkAll m s1 = (s2, roots2)"
    "graph_ok m s1 s2" "roots2 = filter (\<lambda>x. ?par x = None) (map snd m)" by blast
  let ?sorted = "js_sort (compareStart s2) roots2"
  have ss: "set ?sorted = {a \<in> ?V. ?par a = None}" using l(3) by auto
  have ds: "distinct ?sorted" using l(3) index_inj [OF b ne] by simp
  have sub: "set ?sorted \<subseteq> ?V" using ss by blast
  have lv: "\<forall>c\<in>set ?sorted. lvl ?par c 0" using ss by (auto intro: lvl.lvl_root)
  have cf: "card ?V \<le> fuel + 0" using index_card(2) [OF b ne] fuel by simp
  from sort_total(2) [OF l(2) sub lv cf]
  obtain s3 where s3: "sortEach fuel s2 ?sorted = Some s3" "graph_ok m s1 s3" by blast
  have st: "spanTree fuel s0 spans = Some (s3, ?sorted)"
    using ne b l(1) s3(1) by (simp add: spanTree_def sortRoots_def)
  have each: "\<forall>c\<in>set ?sorted. \<exists>t. materialize fuel s3 c = Some t \<and> ref t = c \<and>
      (wf_tree ?par s3 None t \<and> set (forest_refs [t]) \<subseteq> ?V)"
  proof
    fix c assume c: "c \<in> set ?sorted"
    then have cV: "c \<in> ?V" and pc: "?par c = None" using ss by auto
    have "lvl ?par c 0" using lv c by blast
    from mat_total [OF s3(2) cV this cf] pc
    show "\<exists>t. materialize fuel s3 c = Some t \<and> ref t = c \<and>
      (wf_tree ?par s3 None t \<and> set (forest_refs [t]) \<subseteq> ?V)" by auto
  qed
  from those_map_total [OF each]
  obtain F where F: "those (map (materialize fuel s3) ?sorted) = Some F" "map ref F = ?sorted"
    "list_all (\<lambda>t. wf_tree ?par s3 None t \<and> set (forest_refs [t]) \<subseteq> ?V) F" by blast
  have fo: "forest fuel (s3, ?sorted) = Some F" using F(1) by (simp add: forest_def)
  have wf: "list_all (wf_tree ?par s3 None) F" using F(3) by (simp add: list_all_iff)
  have subV: "set (forest_refs F) \<subseteq> ?V"
    using F(3) set_forest_refs [of F] by (auto simp: list_all_iff)
  have lvF: "\<forall>t\<in>set F. lvl ?par (ref t) 0"
  proof
    fix t assume "t \<in> set F"
    then have "wf_tree ?par s3 None t" using wf by (simp add: list_all_iff)
    then have "?par (ref t) = None" by (cases t) simp
    then show "lvl ?par (ref t) 0" by (rule lvl.lvl_root)
  qed
  have eachd: "\<forall>t\<in>set F. distinct (forest_refs [t])"
    using wf lvF tree_distinct by (fastforce simp: list_all_iff)
  have "distinct (map ref F)" using ds unfolding F(2) .
  then have dF: "distinct (forest_refs F)"
    using siblings_distinct [OF wf _ lvF eachd] by blast
  show ?thesis using st fo s3(2) ss F(2) wf dF subV by blast
qed

lemma spanTree_empty:
  "spanTree fuel s0 [] = Some (s0, [])" "forest fuel (s0, []) = Some []" "buildIndex s0 [] = (s0, [])"
  by (simp_all add: spanTree_def forest_def buildIndex_def)

subsection \<open>Cycles\<close>

lemma lvl_ancestor:
  "lvl par x e \<Longrightarrow> ancestor par j x = Some y \<Longrightarrow> j \<le> e \<and> lvl par y (e - j)"
proof (induction j arbitrary: x e)
  case 0
  then show ?case by simp
next
  case (Suc j)
  from Suc.prems(2) obtain p where p: "par x = Some p" "ancestor par j p = Some y"
    by (auto split: option.splits)
  from Suc.prems(1) p(1) obtain e' where e': "e = Suc e'" "lvl par p e'"
    by (cases rule: lvl.cases) auto
  from Suc.IH [OF e'(2) p(2)] show ?case using e'(1) by simp
qed

lemma lvl_no_cycle: "lvl par x e \<Longrightarrow> 0 < j \<Longrightarrow> ancestor par j x \<noteq> Some x"
proof
  assume l: "lvl par x e" and j: "0 < j" and a: "ancestor par j x = Some x"
  from lvl_ancestor [OF l a] have "j \<le> e" "lvl par x (e - j)" by simp_all
  then show False using lvl_functional [OF l, of "e - j"] j by simp
qed

lemma forest_lvl:
  assumes "list_all (wf_tree par s None) F" "x \<in> set (forest_refs F)"
  shows "\<exists>e. lvl par x e"
proof -
  from assms(2) obtain t where t: "t \<in> set F" "x \<in> set (forest_refs [t])"
    using set_forest_refs [of F] by auto
  then have w: "wf_tree par s None t" using assms(1) by (simp add: list_all_iff)
  then have "par (ref t) = None" by (cases t) simp
  then have "lvl par (ref t) 0" by (rule lvl.lvl_root)
  from refs_lvl [OF w this t(2)] show ?thesis by blast
qed

subsection \<open>Nodes of a forest\<close>

lemma flatten_empty_refs: "map ref (flatten {} F) = forest_refs F"
  by (induction F rule: forest_refs.induct) simp_all

lemma flatten_empty_ids: "map (\<lambda>t. span_id (fields t)) (flatten {} F) = forest_ids F"
  by (induction F rule: forest_ids.induct) simp_all

lemma flatten_wf:
  "list_all (wf_tree par s P) F \<Longrightarrow> t \<in> set (flatten {} F) \<Longrightarrow> \<exists>P'. wf_tree par s P' t"
proof (induction F arbitrary: P rule: forest_refs.induct)
  case 1
  then show ?case by simp
next
  case (2 a n ks spans)
  from "2.prems"(2) consider "t = TSpan a n ks" | "t \<in> set (flatten {} ks)" | "t \<in> set (flatten {} spans)"
    by auto
  then show ?case
  proof cases
    case 1
    then show ?thesis using "2.prems"(1) by auto
  next
    case 2
    have "list_all (wf_tree par s (Some a)) ks" using "2.prems"(1) by simp
    then show ?thesis using "2.IH"(1) 2 by blast
  next
    case 3
    have "list_all (wf_tree par s P) spans" using "2.prems"(1) by simp
    then show ?thesis using "2.IH"(2) 3 by blast
  qed
qed

lemma wf_tree_node: "wf_tree par s P t \<Longrightarrow> node_at s (ref t) = Some (fields t)"
  by (cases t) simp

lemma index_key_final:
  assumes b: "buildIndex s0 spans = (s1, m)" and ne: "spans \<noteq> []" and g: "graph_ok m s1 s"
    and ka: "(k, a) \<in> set m" and n: "node_at s a = Some n"
  shows "span_id n = k"
proof -
  from index_key [OF b ne ka] obtain n1 where n1: "node_at s1 a = Some n1" "span_id n1 = k" by blast
  from same_but_node [OF graph_ok_same [OF g] n1(1)] n have "agree n1 n" by simp
  then show ?thesis using agree_fields(1) n1(2) by simp
qed

lemma forest_ids_distinct:
  assumes b: "buildIndex s0 spans = (s1, m)" and ne: "spans \<noteq> []" and g: "graph_ok m s1 s"
    and wf: "list_all (wf_tree par s P) F" and d: "distinct (forest_refs F)"
    and sub: "set (forest_refs F) \<subseteq> snd ` set m"
  shows "distinct (forest_ids F)"
proof -
  let ?N = "flatten {} F"
  have dN: "distinct (map ref ?N)" using d by (simp add: flatten_empty_refs)
  then have dN': "distinct ?N" by (rule distinct_map [THEN iffD1, THEN conjunct1])
  have "inj_on (\<lambda>t. span_id (fields t)) (set ?N)"
  proof (rule inj_onI)
    fix t u assume t: "t \<in> set ?N" and u: "u \<in> set ?N"
      and e: "span_id (fields t) = span_id (fields u)"
    have rt: "ref t \<in> snd ` set m" "ref u \<in> snd ` set m"
      using t u sub flatten_empty_refs [of F] by (metis image_eqI set_map subsetD)+
    then obtain k k' where k: "(k, ref t) \<in> set m" "(k', ref u) \<in> set m" by auto
    from flatten_wf [OF wf t] wf_tree_node have nt: "node_at s (ref t) = Some (fields t)" by blast
    from flatten_wf [OF wf u] wf_tree_node have nu: "node_at s (ref u) = Some (fields u)" by blast
    have "k = k'"
      using index_key_final [OF b ne g k(1) nt] index_key_final [OF b ne g k(2) nu] e by simp
    then have "ref t = ref u" using k index_facts(2) [OF b ne] by (metis map_of_is_SomeI option.inject)
    then show "t = u" using dN t u by (simp add: distinct_map inj_on_def)
  qed
  then have "distinct (map (\<lambda>t. span_id (fields t)) ?N)" using dN' by (simp add: distinct_map)
  then show ?thesis by (simp add: flatten_empty_ids)
qed

lemma readSpans_prefix:
  assumes t: "take (length s) s' = s" and r: "readSpans s arr = Some spans"
  shows "readSpans s' arr = Some spans"
proof -
  have len: "length s \<le> length s'" using t by (metis length_take min.cobounded1)
  have nth: "s' ! a = s ! a" if "a < length s" for a
    using that t by (metis nth_take)
  from r have arr: "arr < length s" by (auto simp: readSpans_def split: if_splits)
  from r arr obtain as where as: "s ! arr = ArrObj as" "list_all (\<lambda>a. span_at s a \<noteq> None) as"
    "spans = map (\<lambda>a. the (span_at s a)) as"
    by (auto simp: readSpans_def split: obj.splits if_splits)
  have sp: "span_at s' a = span_at s a" if "span_at s a \<noteq> None" for a
  proof -
    from that have "a < length s" by (auto simp: span_at_def split: if_splits)
    then show ?thesis using nth len by (simp add: span_at_def)
  qed
  have "list_all (\<lambda>a. span_at s' a \<noteq> None) as" using as(2) sp by (simp add: list_all_iff)
  moreover have "map (\<lambda>a. the (span_at s' a)) as = map (\<lambda>a. the (span_at s a)) as"
    using as(2) sp by (simp add: list_all_iff)
  ultimately show ?thesis using arr len as nth [OF arr] by (simp add: readSpans_def)
qed

section \<open>Roots, cycles and termination of the build\<close>

lemmas build_defs = spanForest_def spanTree_def buildIndex_def linkAll_def addSpan_def attach_def
      resolveParent_def node_at_def upd_node_def depth_at_def children_at_def startMs_at_def
      compareStart_def sortRoots_def forest_def minTime_def toTimelineSpan_def mkSpan_def
      js_sort_def Let_def

lemma lvl_no_revisit:
  assumes l: "lvl par x e" and ij: "i < j"
    and a: "ancestor par i x = Some y" and b: "ancestor par j x = Some y"
  shows False
proof -
  from lvl_ancestor [OF l a] have 1: "i \<le> e" "lvl par y (e - i)" by simp_all
  from lvl_ancestor [OF l b] have 2: "j \<le> e" "lvl par y (e - j)" by simp_all
  from lvl_functional [OF 1(2) 2(2)] 1(1) 2(1) ij show False by simp
qed

lemma flatten_kids:
  "t \<in> set (flatten {} F) \<Longrightarrow> k \<in> set (kids t) \<Longrightarrow> k \<in> set (flatten {} F)"
proof (induction F rule: forest_refs.induct)
  case 1
  then show ?case by simp
next
  case (2 a n ks spans)
  from "2.prems"(1) consider "t = TSpan a n ks" | "t \<in> set (flatten {} ks)" | "t \<in> set (flatten {} spans)"
    by auto
  then show ?case
  proof cases
    case 1
    then have "k \<in> set ks" using "2.prems"(2) by simp
    then have "k \<in> set (flatten {} ks)"
    proof (induction ks)
      case Nil
      then show ?case by simp
    next
      case (Cons u us)
      then show ?case by (cases u) auto
    qed
    then show ?thesis by simp
  next
    case 2
    then show ?thesis using "2.IH"(1) "2.prems"(2) by simp
  next
    case 3
    then show ?thesis using "2.IH"(2) "2.prems"(2) by simp
  qed
qed

lemma roots_in_flatten: "t \<in> set F \<Longrightarrow> t \<in> set (flatten {} F)"
proof (induction F)
  case Nil
  then show ?case by simp
next
  case (Cons u us)
  then show ?case by (cases u) auto
qed

lemma forest_complete:
  assumes g: "graph_ok m s1 s" and wf: "list_all (wf_tree (resolveParent m s1) s None) F"
    and roots: "set (map ref F) = {a \<in> snd ` set m. resolveParent m s1 a = None}"
  shows "lvl (resolveParent m s1) a e \<Longrightarrow> a \<in> snd ` set m \<Longrightarrow> a \<in> set (forest_refs F)"
proof (induction rule: lvl.induct)
  case (lvl_root a)
  then have "a \<in> set (map ref F)" using roots by simp
  then obtain t where t: "t \<in> set F" "ref t = a" by auto
  have "a \<in> set (map ref (flatten {} F))" using roots_in_flatten [OF t(1)] t(2) by force
  then show ?case by (simp only: flatten_empty_refs)
next
  case (lvl_child a p d)
  have pV: "p \<in> snd ` set m" using resolveParent_in [OF lvl_child.hyps(1)] .
  have "p \<in> set (forest_refs F)" using lvl_child.IH pV by simp
  then have "p \<in> set (map ref (flatten {} F))" by (simp only: flatten_empty_refs)
  then obtain t where t: "t \<in> set (flatten {} F)" "ref t = p" by auto
  from flatten_wf [OF wf t(1)] obtain P where w: "wf_tree (resolveParent m s1) s P t" by blast
  obtain b n ks where tt: "t = TSpan b n ks" by (cases t)
  from w tt t(2) have n: "node_at s p = Some n" "map ref ks = children n" by simp_all
  have "a \<in> set (children_at s p)"
    using graph_okD(3) [OF g pV] lvl_child.hyps(1) lvl_child.prems by simp
  then have "a \<in> set (map ref ks)" using n by (simp add: children_at_def)
  then obtain k where k: "k \<in> set ks" "ref k = a" by auto
  have "k \<in> set (flatten {} F)" using flatten_kids [OF t(1)] k(1) tt by simp
  then have "a \<in> set (map ref (flatten {} F))" using k(2) by force
  then show ?case by (simp only: flatten_empty_refs)
qed

lemma spanTree_full:
  assumes b: "buildIndex s0 spans = (s1, m)" and ne: "spans \<noteq> []" and fuel: "length spans \<le> fuel"
  shows "\<exists>s roots F. spanTree fuel s0 spans = Some (s, roots) \<and> forest fuel (s, roots) = Some F \<and>
     graph_ok m s1 s \<and> resolveParent m s = resolveParent m s1 \<and>
     set roots = {a \<in> snd ` set m. resolveParent m s a = None} \<and> map ref F = roots \<and>
     list_all (wf_tree (resolveParent m s1) s None) F \<and>
     distinct (forest_refs F) \<and>
     set (forest_refs F) = {a \<in> snd ` set m. \<exists>e. lvl (resolveParent m s) a e}"
proof -
  from spanTree_main [OF b ne fuel]
  obtain s roots F where r: "spanTree fuel s0 spans = Some (s, roots)"
    "forest fuel (s, roots) = Some F" "graph_ok m s1 s"
    "set roots = {a \<in> snd ` set m. resolveParent m s1 a = None}" "map ref F = roots"
    "list_all (wf_tree (resolveParent m s1) s None) F" "distinct (forest_refs F)"
    "set (forest_refs F) \<subseteq> snd ` set m" by blast
  have par: "resolveParent m s = resolveParent m s1"
    using same_but_resolveParent [OF graph_ok_same [OF r(3)]] by (simp add: fun_eq_iff)
  have rt: "set (map ref F) = {a \<in> snd ` set m. resolveParent m s1 a = None}"
    using r(4,5) by simp
  have "set (forest_refs F) = {a \<in> snd ` set m. \<exists>e. lvl (resolveParent m s1) a e}"
  proof (intro set_eqI iffI)
    fix x assume x: "x \<in> set (forest_refs F)"
    from forest_lvl [OF r(6) x] r(8) x
    show "x \<in> {a \<in> snd ` set m. \<exists>e. lvl (resolveParent m s1) a e}" by blast
  next
    fix x assume "x \<in> {a \<in> snd ` set m. \<exists>e. lvl (resolveParent m s1) a e}"
    then obtain e where "x \<in> snd ` set m" "lvl (resolveParent m s1) x e" by blast
    then show "x \<in> set (forest_refs F)" using forest_complete [OF r(3) r(6) rt] by blast
  qed
  then show ?thesis using r par by (intro exI [of _ s] exI [of _ roots] exI [of _ F]) simp
qed

lemma ref_in_refs: "ref t \<in> set (forest_refs [t])"
  by (cases t) simp

text \<open>
  C1, as the code has it. With a bound of at least the number of spans the build returns,
  and the object graph under the returned roots is a finite forest. Its roots are exactly
  the indexed nodes whose \<^verbatim>\<open>parent_span_id\<close> is absent, empty or not a key of the index. A
  node with a resolved parent is on the \<^verbatim>\<open>children\<close> of that parent and of no other node,
  and is not a root. A node whose chain of resolved parents visits some node twice (it
  lies on a parent cycle, as a node whose non-empty \<^verbatim>\<open>parent_span_id\<close> is its own \<^verbatim>\<open>span_id\<close>
  does, or it hangs below one) is not in the forest at all: the forest holds exactly the
  indexed nodes whose chain ends in a root.
\<close>

theorem resolved_parent_never_root:
  assumes "length spans \<le> fuel"
  shows "\<exists>s roots F. spanTree fuel s0 spans = Some (s, roots) \<and> forest fuel (s, roots) = Some F \<and>
      set roots = {a \<in> snd ` set (snd (buildIndex s0 spans)).
                     resolveParent (snd (buildIndex s0 spans)) s a = None} \<and>
      (\<forall>a j. 0 < j \<and> ancestor (resolveParent (snd (buildIndex s0 spans)) s) j a = Some a \<longrightarrow>
         a \<notin> set roots \<and> a \<notin> set (forest_refs F)) \<and>
      (\<forall>a n. a \<in> snd ` set (snd (buildIndex s0 spans)) \<and> node_at s a = Some n \<and>
          span_id n \<noteq> [] \<and> parent_span_id n = Some (span_id n) \<longrightarrow>
         a \<notin> set roots \<and> a \<notin> set (forest_refs F)) \<and>
      (\<forall>a i j y. i < j \<and> ancestor (resolveParent (snd (buildIndex s0 spans)) s) i a = Some y \<and>
          ancestor (resolveParent (snd (buildIndex s0 spans)) s) j a = Some y \<longrightarrow>
         a \<notin> set roots \<and> a \<notin> set (forest_refs F)) \<and>
      (\<forall>p \<in> snd ` set (snd (buildIndex s0 spans)).
         distinct (children_at s p) \<and>
         set (children_at s p) =
           {c \<in> snd ` set (snd (buildIndex s0 spans)).
              resolveParent (snd (buildIndex s0 spans)) s c = Some p}) \<and>
      (\<forall>a p. a \<in> snd ` set (snd (buildIndex s0 spans)) \<and>
          resolveParent (snd (buildIndex s0 spans)) s a = Some p \<longrightarrow>
         p \<in> snd ` set (snd (buildIndex s0 spans)) \<and> a \<in> set (children_at s p) \<and> a \<notin> set roots) \<and>
      map ref F = roots \<and>
      set (forest_refs F) =
        {a \<in> snd ` set (snd (buildIndex s0 spans)).
           \<exists>e. lvl (resolveParent (snd (buildIndex s0 spans)) s) a e}"
proof (cases "spans = []")
  case True
  then show ?thesis by (simp add: spanTree_empty)
next
  case False
  obtain s1 m where b: "buildIndex s0 spans = (s1, m)" by (cases "buildIndex s0 spans")
  let ?V = "snd ` set m"
  from spanTree_full [OF b False assms]
  obtain s roots F where r: "spanTree fuel s0 spans = Some (s, roots)"
    "forest fuel (s, roots) = Some F" "graph_ok m s1 s"
    "resolveParent m s = resolveParent m s1"
    "set roots = {a \<in> ?V. resolveParent m s a = None}" "map ref F = roots"
    "list_all (wf_tree (resolveParent m s1) s None) F"
    "set (forest_refs F) = {a \<in> ?V. \<exists>e. lvl (resolveParent m s) a e}" by blast
  have rootsF: "set roots \<subseteq> set (forest_refs F)"
  proof
    fix x assume "x \<in> set roots"
    then obtain t where t: "t \<in> set F" "ref t = x" using r(6) by auto
    have "x \<in> set (forest_refs [t])" using ref_in_refs [of t] t(2) by simp
    then show "x \<in> set (forest_refs F)" using t(1) set_forest_refs [of F] by blast
  qed
  have rev: "a \<notin> set (forest_refs F)"
    if "i < j" "ancestor (resolveParent m s) i a = Some y" "ancestor (resolveParent m s) j a = Some y"
    for a i j y
  proof
    assume "a \<in> set (forest_refs F)"
    then obtain e where "lvl (resolveParent m s) a e" using r(8) by blast
    from lvl_no_revisit [OF this that] show False .
  qed
  have cyc: "a \<notin> set (forest_refs F)" if "0 < j" "ancestor (resolveParent m s) j a = Some a" for a j
    using rev [of 0 j a a] that by simp
  have self: "a \<notin> set (forest_refs F)"
    if a: "a \<in> ?V" and n: "node_at s a = Some n" and ne: "span_id n \<noteq> []"
      and p: "parent_span_id n = Some (span_id n)" for a n
  proof -
    from a obtain k where k: "(k, a) \<in> set m" by auto
    have "span_id n = k" by (rule index_key_final [OF b False r(3) k n])
    then have "map_of m (span_id n) = Some a" using k index_facts(2) [OF b False] by simp
    then have "resolveParent m s a = Some a" using n ne p by (simp add: resolveParent_def)
    then have "ancestor (resolveParent m s) (Suc 0) a = Some a" by simp
    then show ?thesis using cyc [of "Suc 0" a] by simp
  qed
  have m: "snd (buildIndex s0 spans) = m" using b by simp
  have c1: "\<forall>a j. 0 < j \<and> ancestor (resolveParent m s) j a = Some a \<longrightarrow>
         a \<notin> set roots \<and> a \<notin> set (forest_refs F)"
    using cyc rootsF by blast
  have c2: "\<forall>a n. a \<in> ?V \<and> node_at s a = Some n \<and>
          span_id n \<noteq> [] \<and> parent_span_id n = Some (span_id n) \<longrightarrow>
         a \<notin> set roots \<and> a \<notin> set (forest_refs F)"
    using self rootsF by blast
  have c3: "\<forall>a i j y. i < j \<and> ancestor (resolveParent m s) i a = Some y \<and>
          ancestor (resolveParent m s) j a = Some y \<longrightarrow>
         a \<notin> set roots \<and> a \<notin> set (forest_refs F)"
    using rev rootsF by blast
  have c4: "\<forall>p \<in> ?V. distinct (children_at s p) \<and>
         set (children_at s p) = {c \<in> ?V. resolveParent m s c = Some p}"
    using graph_okD(2,3) [OF r(3)] r(4) by simp
  have c5: "\<forall>a p. a \<in> ?V \<and> resolveParent m s a = Some p \<longrightarrow>
         p \<in> ?V \<and> a \<in> set (children_at s p) \<and> a \<notin> set roots"
  proof (intro allI impI)
    fix a p assume h: "a \<in> ?V \<and> resolveParent m s a = Some p"
    then have pV: "p \<in> ?V" using resolveParent_in by blast
    then have "a \<in> set (children_at s p)" using c4 h by blast
    moreover have "a \<notin> set roots" using r(5) h by simp
    ultimately show "p \<in> ?V \<and> a \<in> set (children_at s p) \<and> a \<notin> set roots" using pV by blast
  qed
  show ?thesis unfolding m
    by (intro exI [of _ s] exI [of _ roots] exI [of _ F] conjI r(1) r(2) r(5) c1 c2 c3 c4 c5 r(6) r(8))
qed

lemma cyc_build:
  "spanTree 4 [] cycSpans = Some (cycStore, [3])"
  "snd (buildIndex [] cycSpans) = [(''A'', 0), (''B'', 1), (''C'', 2), (''R'', 3)]"
  by (simp_all add: build_defs cycSpans_def cycStore_def eval_nat_numeral)

lemma cyc_parents:
  "resolveParent (snd (buildIndex [] cycSpans)) cycStore 2 = Some 0"
  "resolveParent (snd (buildIndex [] cycSpans)) cycStore 0 = Some (Suc 0)"
  "resolveParent (snd (buildIndex [] cycSpans)) cycStore (Suc 0) = Some 0"
  "2 \<in> snd ` set (snd (buildIndex [] cycSpans))"
  by (simp_all add: cyc_build(2) resolveParent_def node_at_def cycStore_def toTimelineSpan_def
      mkSpan_def)

theorem resolved_parent_never_root_witness:
  "length cycSpans \<le> 4 \<and>
   (0::nat) < 2 \<and>
   ancestor (resolveParent (snd (buildIndex [] cycSpans)) cycStore) 1 2 = Some 0 \<and>
   ancestor (resolveParent (snd (buildIndex [] cycSpans)) cycStore) 3 2 = Some 0 \<and>
   (\<exists>F. spanTree 4 [] cycSpans = Some (cycStore, [3]) \<and> forest 4 (cycStore, [3]) = Some F \<and>
      map ref F = [3] \<and> 2 \<notin> set (forest_refs F) \<and> 2 \<in> set (children_at cycStore 0))"
proof -
  let ?m = "snd (buildIndex [] cycSpans)"
  have l: "length cycSpans \<le> 4" by (simp add: cycSpans_def)
  have a1: "ancestor (resolveParent ?m cycStore) 1 2 = Some 0"
    by (simp add: cyc_parents)
  have a3: "ancestor (resolveParent ?m cycStore) 3 2 = Some 0"
    by (simp add: cyc_parents numeral_3_eq_3)
  have p2: "2 \<in> snd ` set ?m \<and> resolveParent ?m cycStore 2 = Some 0"
    using cyc_parents(1,4) by blast
  from resolved_parent_never_root [OF l, of "[]"] cyc_build(1)
  obtain F where F: "forest 4 (cycStore, [3]) = Some F" "map ref F = [3]"
    "\<forall>a i j y. i < j \<and> ancestor (resolveParent ?m cycStore) i a = Some y \<and>
          ancestor (resolveParent ?m cycStore) j a = Some y \<longrightarrow>
         a \<notin> set [3] \<and> a \<notin> set (forest_refs F)"
    "\<forall>a p. a \<in> snd ` set ?m \<and> resolveParent ?m cycStore a = Some p \<longrightarrow>
         p \<in> snd ` set ?m \<and> a \<in> set (children_at cycStore p) \<and> a \<notin> set [3]"
    by auto
  have "(1::nat) < 3" by simp
  with F(3) a1 a3 have n: "2 \<notin> set (forest_refs F)" by blast
  from F(4) p2 have c: "2 \<in> set (children_at cycStore 0)" by blast
  show ?thesis using l a1 a3 cyc_build(1) F(1,2) n c by simp
qed

text \<open>
  C1 as stated fails: for the single span \<^verbatim>\<open>X\<close> with \<^verbatim>\<open>parent_span_id = X\<close> the returned root
  array is empty (the node is its own only child, with depth 1), and so is the forest.
\<close>

theorem self_parent_not_root:
  "spanTree 1 [] [mkSpan ''X'' (Some ''X'') ''OK'' 0 10] =
     Some ([NodeObj ((toTimelineSpan 0 (mkSpan ''X'' (Some ''X'') ''OK'' 0 10))\<lparr>depth := 1, children := [0]\<rparr>)], []) \<and>
   spanForest 1 [] [mkSpan ''X'' (Some ''X'') ''OK'' 0 10] = Some []"
  by (simp add: spanForest_def spanTree_def buildIndex_def linkAll_def addSpan_def attach_def
      resolveParent_def node_at_def upd_node_def depth_at_def sortRoots_def forest_def
      minTime_def toTimelineSpan_def mkSpan_def js_sort_def Let_def)

section \<open>Frame, duplicates and depth\<close>

text \<open>
  C9. Building the span tree leaves every object that existed before unchanged (the input
  array, the span objects it lists, their attribute and event objects), so the input
  reads the same afterwards; every node of the forest is an object that did not exist
  before.
\<close>

theorem input_unchanged:
  assumes r: "readSpans s arr = Some spans" and fuel: "length spans \<le> fuel"
  shows "\<exists>s' roots F. spanTreeOf fuel s arr = Some (s', roots) \<and> forest fuel (s', roots) = Some F \<and>
      take (length s) s' = s \<and> readSpans s' arr = Some spans \<and>
      (\<forall>a \<in> set (forest_refs F). length s \<le> a \<and> a < length s')"
proof (cases "spans = []")
  case True
  then show ?thesis using r by (simp add: spanTreeOf_def spanTree_empty)
next
  case False
  obtain s1 m where b: "buildIndex s spans = (s1, m)" by (cases "buildIndex s spans")
  let ?V = "snd ` set m"
  from spanTree_main [OF b False fuel]
  obtain s' roots F where t: "spanTree fuel s spans = Some (s', roots)"
    "forest fuel (s', roots) = Some F" "graph_ok m s1 s'"
    "set (forest_refs F) \<subseteq> ?V" by blast
  have lo: "\<forall>a\<in>?V. length s \<le> a" using index_key [OF b False] by fastforce
  have hi: "\<forall>a\<in>?V. a < length s1"
  proof
    fix a assume "a \<in> ?V"
    then obtain k where "(k, a) \<in> set m" by auto
    from index_key [OF b False this] show "a < length s1"
      by (auto simp: node_at_def split: if_splits)
  qed
  have s1: "s1 = s @ nodes_of (minTime (hd spans) (tl spans)) spans"
    by (rule index_facts(1) [OF b False])
  have "take (length s) s' = take (length s) s1"
    by (rule same_but_take [OF graph_ok_same [OF t(3)] lo])
  then have keep: "take (length s) s' = s" using s1 by simp
  have len: "length s' = length s1" by (rule same_but_length [OF graph_ok_same [OF t(3)]])
  have fresh: "\<forall>a \<in> set (forest_refs F). length s \<le> a \<and> a < length s'"
    using t(4) lo hi len by auto
  have "spanTreeOf fuel s arr = Some (s', roots)" using r t(1) by (simp add: spanTreeOf_def)
  then show ?thesis using t(2) keep readSpans_prefix [OF keep r] fresh by blast
qed

theorem input_unchanged_witness:
  "readSpans sampleStore 4 = Some [mkSpan ''R'' None ''OK'' 0 100, mkSpan ''C'' (Some ''R'') ''OK'' 10 40] \<and>
   length [mkSpan ''R'' None ''OK'' 0 100, mkSpan ''C'' (Some ''R'') ''OK'' 10 40] \<le> 2 \<and>
   (\<exists>s' roots F. spanTreeOf 2 sampleStore 4 = Some (s', roots) \<and> forest 2 (s', roots) = Some F \<and>
      take (length sampleStore) s' = sampleStore \<and>
      readSpans s' 4 = Some [mkSpan ''R'' None ''OK'' 0 100, mkSpan ''C'' (Some ''R'') ''OK'' 10 40] \<and>
      (\<forall>a \<in> set (forest_refs F). length sampleStore \<le> a \<and> a < length s'))"
proof -
  have r: "readSpans sampleStore 4 =
      Some [mkSpan ''R'' None ''OK'' 0 100, mkSpan ''C'' (Some ''R'') ''OK'' 10 40]"
    by (simp add: readSpans_def span_at_def sampleStore_def)
  have l: "length [mkSpan ''R'' None ''OK'' 0 100, mkSpan ''C'' (Some ''R'') ''OK'' 10 40] \<le> 2"
    by simp
  show ?thesis using r l input_unchanged [OF r l] by blast
qed

text \<open>
  C10. The index is built with last-write-wins: it has one entry per distinct span id, and
  the entry of an id refers to the object made from the last span with that id in input
  order, which carries that span's data (all fields but \<open>depth\<close> and \<open>children\<close> are as
  constructed from it). The forest hangs from the index entries without resolved parent and
  every node of it is the index's node for its id, so it has at most one node per span id,
  the objects made from earlier occurrences are not in it, and the number of its nodes is
  at most the number of distinct span ids.
\<close>

theorem one_node_per_span_id:
  assumes fuel: "length spans \<le> fuel"
  shows "\<exists>s roots F. spanTree fuel s0 spans = Some (s, roots) \<and> forest fuel (s, roots) = Some F \<and>
     distinct (forest_ids F) \<and> length (flatten {} F) \<le> card (span_id ` set spans) \<and>
     (\<forall>t \<in> set (flatten {} F). \<exists>i<length spans.
         ref t = length s0 + i \<and> span_id (fields t) = span_id (spans ! i) \<and>
         (\<forall>j. i < j \<and> j < length spans \<longrightarrow> span_id (spans ! j) \<noteq> span_id (fields t)) \<and>
         agree (toTimelineSpan (minTime (hd spans) (tl spans)) (spans ! i)) (fields t)) \<and>
     distinct (map fst (snd (buildIndex s0 spans))) \<and>
     set (map fst (snd (buildIndex s0 spans))) = span_id ` set spans \<and>
     (\<forall>k a. map_of (snd (buildIndex s0 spans)) k = Some a \<longrightarrow>
        (\<exists>i<length spans. a = length s0 + i \<and> span_id (spans ! i) = k \<and>
           (\<forall>j. i < j \<and> j < length spans \<longrightarrow> span_id (spans ! j) \<noteq> k) \<and>
           (\<exists>n. node_at s a = Some n \<and>
              agree (toTimelineSpan (minTime (hd spans) (tl spans)) (spans ! i)) n))) \<and>
     (\<forall>t \<in> set (flatten {} F).
        map_of (snd (buildIndex s0 spans)) (span_id (fields t)) = Some (ref t) \<and>
        node_at s (ref t) = Some (fields t)) \<and>
     map ref F = roots \<and>
     set roots = {a \<in> snd ` set (snd (buildIndex s0 spans)).
                    resolveParent (snd (buildIndex s0 spans)) s a = None} \<and>
     set (forest_refs F) =
       {a \<in> snd ` set (snd (buildIndex s0 spans)).
          \<exists>e. lvl (resolveParent (snd (buildIndex s0 spans)) s) a e}"
proof (cases "spans = []")
  case True
  then show ?thesis by (simp add: spanTree_empty)
next
  case False
  obtain s1 m where b: "buildIndex s0 spans = (s1, m)" by (cases "buildIndex s0 spans")
  let ?V = "snd ` set m"
  let ?par = "resolveParent m s1"
  let ?minT = "minTime (hd spans) (tl spans)"
  from spanTree_full [OF b False fuel]
  obtain s roots F where t: "spanTree fuel s0 spans = Some (s, roots)"
    "forest fuel (s, roots) = Some F" "graph_ok m s1 s"
    "list_all (wf_tree ?par s None) F" "distinct (forest_refs F)"
    "set (forest_refs F) = {a \<in> ?V. \<exists>e. lvl (resolveParent m s) a e}"
    "map ref F = roots" "set roots = {a \<in> ?V. resolveParent m s a = None}" by blast
  have sub: "set (forest_refs F) \<subseteq> ?V" using t(6) by blast
  note ix = index_facts [OF b False]
  have d: "distinct (forest_ids F)"
    by (rule forest_ids_distinct [OF b False t(3) t(4) t(5) sub])
  have "length (flatten {} F) = length (map ref (flatten {} F))" by simp
  also have "\<dots> = length (forest_refs F)" by (simp only: flatten_empty_refs)
  also have "\<dots> = card (set (forest_refs F))" using t(5) by (simp add: distinct_card)
  also have "\<dots> \<le> card ?V" using sub by (simp add: card_mono)
  also have "\<dots> = card (span_id ` set spans)" by (rule index_card(1) [OF b False])
  finally have cnt: "length (flatten {} F) \<le> card (span_id ` set spans)" .
  have node: "\<exists>i<length spans. ref t = length s0 + i \<and> span_id (fields t) = span_id (spans ! i) \<and>
         (\<forall>j. i < j \<and> j < length spans \<longrightarrow> span_id (spans ! j) \<noteq> span_id (fields t)) \<and>
         agree (toTimelineSpan ?minT (spans ! i)) (fields t)"
      and entry: "map_of m (span_id (fields t)) = Some (ref t) \<and> node_at s (ref t) = Some (fields t)"
    if tn: "t \<in> set (flatten {} F)" for t
  proof -
    have "ref t \<in> set (map ref (flatten {} F))" using tn by simp
    then have "ref t \<in> set (forest_refs F)" by (simp only: flatten_empty_refs)
    then obtain k where k: "(k, ref t) \<in> set m" using sub by auto
    from flatten_wf [OF t(4) tn] wf_tree_node have nt: "node_at s (ref t) = Some (fields t)" by blast
    from index_nodes [OF b False k] obtain i where i: "i < length spans" "ref t = length s0 + i"
      "span_id (spans ! i) = k" "\<forall>j. i < j \<and> j < length spans \<longrightarrow> span_id (spans ! j) \<noteq> k"
      "node_at s1 (ref t) = Some (toTimelineSpan ?minT (spans ! i))" by blast
    have key: "span_id (fields t) = k" by (rule index_key_final [OF b False t(3) k nt])
    from same_but_node [OF graph_ok_same [OF t(3)] i(5)] nt
    have ag: "agree (toTimelineSpan ?minT (spans ! i)) (fields t)" by simp
    have e1: "span_id (fields t) = span_id (spans ! i)" using key i(3) by simp
    have e2: "\<forall>j. i < j \<and> j < length spans \<longrightarrow> span_id (spans ! j) \<noteq> span_id (fields t)"
      using i(4) key by simp
    show "\<exists>i<length spans. ref t = length s0 + i \<and> span_id (fields t) = span_id (spans ! i) \<and>
         (\<forall>j. i < j \<and> j < length spans \<longrightarrow> span_id (spans ! j) \<noteq> span_id (fields t)) \<and>
         agree (toTimelineSpan ?minT (spans ! i)) (fields t)"
      by (rule exI [of _ i]) (intro conjI i(1) i(2) e1 e2 ag)
    have "map_of m (span_id (fields t)) = Some (ref t)" using k key ix(2) by simp
    then show "map_of m (span_id (fields t)) = Some (ref t) \<and> node_at s (ref t) = Some (fields t)"
      using nt by simp
  qed
  have all: "\<forall>t \<in> set (flatten {} F). \<exists>i<length spans.
         ref t = length s0 + i \<and> span_id (fields t) = span_id (spans ! i) \<and>
         (\<forall>j. i < j \<and> j < length spans \<longrightarrow> span_id (spans ! j) \<noteq> span_id (fields t)) \<and>
         agree (toTimelineSpan ?minT (spans ! i)) (fields t)"
    using node by (intro ballI)
  have ents: "\<forall>t \<in> set (flatten {} F).
        map_of m (span_id (fields t)) = Some (ref t) \<and> node_at s (ref t) = Some (fields t)"
    using entry by (intro ballI)
  have last: "\<exists>i<length spans. a = length s0 + i \<and> span_id (spans ! i) = k \<and>
           (\<forall>j. i < j \<and> j < length spans \<longrightarrow> span_id (spans ! j) \<noteq> k) \<and>
           (\<exists>n. node_at s a = Some n \<and> agree (toTimelineSpan ?minT (spans ! i)) n)"
    if h: "map_of m k = Some a" for k a
  proof -
    have ka: "(k, a) \<in> set m" using h by (rule map_of_SomeD)
    from index_nodes [OF b False ka] obtain i where i: "i < length spans" "a = length s0 + i"
      "span_id (spans ! i) = k" "\<forall>j. i < j \<and> j < length spans \<longrightarrow> span_id (spans ! j) \<noteq> k"
      "node_at s1 a = Some (toTimelineSpan ?minT (spans ! i))" by blast
    from same_but_node [OF graph_ok_same [OF t(3)] i(5)]
    have n: "\<exists>n. node_at s a = Some n \<and> agree (toTimelineSpan ?minT (spans ! i)) n" .
    show ?thesis by (rule exI [of _ i]) (intro conjI i(1) i(2) i(3) i(4) n)
  qed
  have lasts: "\<forall>k a. map_of m k = Some a \<longrightarrow>
        (\<exists>i<length spans. a = length s0 + i \<and> span_id (spans ! i) = k \<and>
           (\<forall>j. i < j \<and> j < length spans \<longrightarrow> span_id (spans ! j) \<noteq> k) \<and>
           (\<exists>n. node_at s a = Some n \<and> agree (toTimelineSpan ?minT (spans ! i)) n))"
    using last by (intro allI impI)
  have m: "snd (buildIndex s0 spans) = m" using b by simp
  show ?thesis unfolding m
    by (intro exI [of _ s] exI [of _ roots] exI [of _ F] conjI t(1) t(2) d cnt all ix(2) ix(3)
        lasts ents t(7) t(8) t(6))
qed

lemma dup_index: "map_of (snd (buildIndex [] dupSpans)) ''C'' = Some 2"
  by (simp add: build_defs dupSpans_def)

theorem one_node_per_span_id_witness:
  "length dupSpans \<le> 4 \<and> map_of (snd (buildIndex [] dupSpans)) ''C'' = Some 2 \<and>
   (\<exists>s roots F. spanTree 4 [] dupSpans = Some (s, roots) \<and> forest 4 (s, roots) = Some F \<and>
      distinct (forest_ids F) \<and> length (flatten {} F) \<le> card (span_id ` set dupSpans) \<and>
      (\<exists>i<length dupSpans. 2 = length ([] :: store) + i \<and> span_id (dupSpans ! i) = ''C'' \<and>
         (\<forall>j. i < j \<and> j < length dupSpans \<longrightarrow> span_id (dupSpans ! j) \<noteq> ''C'') \<and>
         (\<exists>n. node_at s 2 = Some n \<and>
            agree (toTimelineSpan (minTime (hd dupSpans) (tl dupSpans)) (dupSpans ! i)) n)))"
proof -
  have l: "length dupSpans \<le> 4" by (simp add: dupSpans_def)
  from one_node_per_span_id [OF l, of "[]"]
  obtain s where "\<exists>roots F. spanTree 4 [] dupSpans = Some (s, roots) \<and> forest 4 (s, roots) = Some F \<and>
     distinct (forest_ids F) \<and> length (flatten {} F) \<le> card (span_id ` set dupSpans) \<and>
     (\<forall>t \<in> set (flatten {} F). \<exists>i<length dupSpans.
         ref t = length ([] :: store) + i \<and> span_id (fields t) = span_id (dupSpans ! i) \<and>
         (\<forall>j. i < j \<and> j < length dupSpans \<longrightarrow> span_id (dupSpans ! j) \<noteq> span_id (fields t)) \<and>
         agree (toTimelineSpan (minTime (hd dupSpans) (tl dupSpans)) (dupSpans ! i)) (fields t)) \<and>
     distinct (map fst (snd (buildIndex [] dupSpans))) \<and>
     set (map fst (snd (buildIndex [] dupSpans))) = span_id ` set dupSpans \<and>
     (\<forall>k a. map_of (snd (buildIndex [] dupSpans)) k = Some a \<longrightarrow>
        (\<exists>i<length dupSpans. a = length ([] :: store) + i \<and> span_id (dupSpans ! i) = k \<and>
           (\<forall>j. i < j \<and> j < length dupSpans \<longrightarrow> span_id (dupSpans ! j) \<noteq> k) \<and>
           (\<exists>n. node_at s a = Some n \<and>
              agree (toTimelineSpan (minTime (hd dupSpans) (tl dupSpans)) (dupSpans ! i)) n))) \<and>
     (\<forall>t \<in> set (flatten {} F).
        map_of (snd (buildIndex [] dupSpans)) (span_id (fields t)) = Some (ref t) \<and>
        node_at s (ref t) = Some (fields t)) \<and>
     map ref F = roots \<and>
     set roots = {a \<in> snd ` set (snd (buildIndex [] dupSpans)).
                    resolveParent (snd (buildIndex [] dupSpans)) s a = None} \<and>
     set (forest_refs F) =
       {a \<in> snd ` set (snd (buildIndex [] dupSpans)).
          \<exists>e. lvl (resolveParent (snd (buildIndex [] dupSpans)) s) a e}" ..
  then obtain roots where "\<exists>F. spanTree 4 [] dupSpans = Some (s, roots) \<and> forest 4 (s, roots) = Some F \<and>
     distinct (forest_ids F) \<and> length (flatten {} F) \<le> card (span_id ` set dupSpans) \<and>
     (\<forall>t \<in> set (flatten {} F). \<exists>i<length dupSpans.
         ref t = length ([] :: store) + i \<and> span_id (fields t) = span_id (dupSpans ! i) \<and>
         (\<forall>j. i < j \<and> j < length dupSpans \<longrightarrow> span_id (dupSpans ! j) \<noteq> span_id (fields t)) \<and>
         agree (toTimelineSpan (minTime (hd dupSpans) (tl dupSpans)) (dupSpans ! i)) (fields t)) \<and>
     distinct (map fst (snd (buildIndex [] dupSpans))) \<and>
     set (map fst (snd (buildIndex [] dupSpans))) = span_id ` set dupSpans \<and>
     (\<forall>k a. map_of (snd (buildIndex [] dupSpans)) k = Some a \<longrightarrow>
        (\<exists>i<length dupSpans. a = length ([] :: store) + i \<and> span_id (dupSpans ! i) = k \<and>
           (\<forall>j. i < j \<and> j < length dupSpans \<longrightarrow> span_id (dupSpans ! j) \<noteq> k) \<and>
           (\<exists>n. node_at s a = Some n \<and>
              agree (toTimelineSpan (minTime (hd dupSpans) (tl dupSpans)) (dupSpans ! i)) n))) \<and>
     (\<forall>t \<in> set (flatten {} F).
        map_of (snd (buildIndex [] dupSpans)) (span_id (fields t)) = Some (ref t) \<and>
        node_at s (ref t) = Some (fields t)) \<and>
     map ref F = roots \<and>
     set roots = {a \<in> snd ` set (snd (buildIndex [] dupSpans)).
                    resolveParent (snd (buildIndex [] dupSpans)) s a = None} \<and>
     set (forest_refs F) =
       {a \<in> snd ` set (snd (buildIndex [] dupSpans)).
          \<exists>e. lvl (resolveParent (snd (buildIndex [] dupSpans)) s) a e}" ..
  then obtain F where r: "spanTree 4 [] dupSpans = Some (s, roots) \<and> forest 4 (s, roots) = Some F \<and>
     distinct (forest_ids F) \<and> length (flatten {} F) \<le> card (span_id ` set dupSpans) \<and>
     (\<forall>t \<in> set (flatten {} F). \<exists>i<length dupSpans.
         ref t = length ([] :: store) + i \<and> span_id (fields t) = span_id (dupSpans ! i) \<and>
         (\<forall>j. i < j \<and> j < length dupSpans \<longrightarrow> span_id (dupSpans ! j) \<noteq> span_id (fields t)) \<and>
         agree (toTimelineSpan (minTime (hd dupSpans) (tl dupSpans)) (dupSpans ! i)) (fields t)) \<and>
     distinct (map fst (snd (buildIndex [] dupSpans))) \<and>
     set (map fst (snd (buildIndex [] dupSpans))) = span_id ` set dupSpans \<and>
     (\<forall>k a. map_of (snd (buildIndex [] dupSpans)) k = Some a \<longrightarrow>
        (\<exists>i<length dupSpans. a = length ([] :: store) + i \<and> span_id (dupSpans ! i) = k \<and>
           (\<forall>j. i < j \<and> j < length dupSpans \<longrightarrow> span_id (dupSpans ! j) \<noteq> k) \<and>
           (\<exists>n. node_at s a = Some n \<and>
              agree (toTimelineSpan (minTime (hd dupSpans) (tl dupSpans)) (dupSpans ! i)) n))) \<and>
     (\<forall>t \<in> set (flatten {} F).
        map_of (snd (buildIndex [] dupSpans)) (span_id (fields t)) = Some (ref t) \<and>
        node_at s (ref t) = Some (fields t)) \<and>
     map ref F = roots \<and>
     set roots = {a \<in> snd ` set (snd (buildIndex [] dupSpans)).
                    resolveParent (snd (buildIndex [] dupSpans)) s a = None} \<and>
     set (forest_refs F) =
       {a \<in> snd ` set (snd (buildIndex [] dupSpans)).
          \<exists>e. lvl (resolveParent (snd (buildIndex [] dupSpans)) s) a e}" ..
  note r1 = r [THEN conjunct1]
  note r2 = r [THEN conjunct2, THEN conjunct1]
  note r3 = r [THEN conjunct2, THEN conjunct2, THEN conjunct1]
  note r4 = r [THEN conjunct2, THEN conjunct2, THEN conjunct2, THEN conjunct1]
  note r8 = r [THEN conjunct2, THEN conjunct2, THEN conjunct2, THEN conjunct2, THEN conjunct2,
      THEN conjunct2, THEN conjunct2, THEN conjunct1]
  note e = r8 [rule_format, OF dup_index]
  show ?thesis
    by (intro conjI l dup_index exI [of _ s] exI [of _ roots] exI [of _ F] r1 r2 r3 r4 e)
qed

text \<open>
  C2. The claim: in any input order every non-root node's \<open>depth\<close> is its resolved parent's
  \<open>depth\<close> plus 1. The second loop sets \<open>depth\<close> from the parent's \<open>depth\<close> at that moment,
  in index order: for the chain \<^verbatim>\<open>C\<close> (child of \<^verbatim>\<open>B\<close>), \<^verbatim>\<open>B\<close> (child of \<^verbatim>\<open>A\<close>), \<^verbatim>\<open>A\<close> given in
  this order, \<^verbatim>\<open>C\<close> is visited while \<^verbatim>\<open>B\<close> still has depth 0, so \<^verbatim>\<open>C\<close> and \<^verbatim>\<open>B\<close> both end
  with depth 1. \<^verbatim>\<open>TraceGraph\<close>'s \<^verbatim>\<open>depth\<close>, which follows the parents, gives 2 for \<^verbatim>\<open>C\<close>.
\<close>

theorem depth_depends_on_input_order:
  "map_option depths (spanForest 3 []
      [mkSpan ''C'' (Some ''B'') ''OK'' 20 30, mkSpan ''B'' (Some ''A'') ''OK'' 10 40,
       mkSpan ''A'' None ''OK'' 0 50]) =
     Some [(''A'', 0), (''B'', 1), (''C'', 1)] \<and>
   graphDepth 3
     [(''C'', mkSpan ''C'' (Some ''B'') ''OK'' 20 30), (''B'', mkSpan ''B'' (Some ''A'') ''OK'' 10 40),
      (''A'', mkSpan ''A'' None ''OK'' 0 50)]
     (mkSpan ''C'' (Some ''B'') ''OK'' 20 30) = Some 2"
  by (simp add: build_defs depths_def numeral_3_eq_3)

text \<open>
  With the ids \<^verbatim>\<open>R\<close> and \<^verbatim>\<open>C\<close> both occurring twice, the forest has the two nodes made
  from the last occurrences (addresses 3 and 2).
\<close>

lemma duplicate_ids_example:
  "map_option (map (\<lambda>t. (ref t, span_id (fields t), start_time (fields t)))) (map_option (flatten {}) (spanForest 4 []
      dupSpans)) =
     Some [(3, ''R'', 5), (2, ''C'', 10)]"
  by (simp add: build_defs dupSpans_def eval_nat_numeral)

subsection \<open>A larger bound gives the same result\<close>

lemma sort_mono:
  "sortChildren f s a = Some s' \<Longrightarrow> f \<le> f' \<Longrightarrow> sortChildren f' s a = Some s'"
  "sortEach f s cs = Some s' \<Longrightarrow> f \<le> f' \<Longrightarrow> sortEach f' s cs = Some s'"
proof (induction f s a and f s cs arbitrary: s' f' and s' f' rule: sortChildren_sortEach.induct)
  case (1 s a)
  then show ?case by simp
next
  case (2 fuel s a)
  from "2.prems"(2) obtain f'' where f': "f' = Suc f''" "fuel \<le> f''" by (cases f') auto
  let ?sorted = "js_sort (compareStart s) (children_at s a)"
  let ?s = "upd_node a (\<lambda>n. n\<lparr>children := ?sorted\<rparr>) s"
  have "sortEach fuel ?s ?sorted = Some s'" using "2.prems"(1) by (simp add: Let_def)
  from "2.IH" [OF refl refl this f'(2)] show ?case using f'(1) by (simp add: Let_def)
next
  case (3 fuel s)
  then show ?case by simp
next
  case (4 fuel s c cs)
  from "4.prems"(1) obtain s1 where s1: "sortChildren fuel s c = Some s1" "sortEach fuel s1 cs = Some s'"
    by (auto split: option.splits)
  have "sortChildren f' s c = Some s1" by (rule "4.IH"(1) [OF s1(1) "4.prems"(2)])
  moreover have "sortEach f' s1 cs = Some s'" by (rule "4.IH"(2) [OF s1(1) s1(2) "4.prems"(2)])
  ultimately show ?case by simp
qed

lemma those_map_mono:
  "\<forall>c\<in>set cs. \<forall>t. g c = Some t \<longrightarrow> h c = Some t \<Longrightarrow> those (map g cs) = Some ks \<Longrightarrow>
     those (map h cs) = Some ks"
proof (induction cs arbitrary: ks)
  case Nil
  then show ?case by simp
next
  case (Cons c cs)
  from Cons.prems(2) obtain t ks' where t: "g c = Some t" "those (map g cs) = Some ks'" "ks = t # ks'"
    by (auto split: option.splits)
  have "h c = Some t" using Cons.prems(1) t(1) by simp
  moreover have "those (map h cs) = Some ks'" using Cons.IH Cons.prems(1) t(2) by simp
  ultimately show ?case using t(3) by simp
qed

lemma mat_mono: "materialize f s a = Some t \<Longrightarrow> f \<le> f' \<Longrightarrow> materialize f' s a = Some t"
proof (induction f arbitrary: a t f')
  case 0
  then show ?case by simp
next
  case (Suc f)
  from Suc.prems(2) obtain f'' where f': "f' = Suc f''" "f \<le> f''" by (cases f') auto
  from Suc.prems(1) obtain n ks where n: "node_at s a = Some n"
    "those (map (materialize f s) (children n)) = Some ks" "t = TSpan a n ks"
    by (auto split: option.splits)
  have "\<forall>c\<in>set (children n). \<forall>t. materialize f s c = Some t \<longrightarrow> materialize f'' s c = Some t"
    using Suc.IH f'(2) by blast
  from those_map_mono [OF this n(2)] show ?case using n(1,3) f'(1) by simp
qed

lemma spanForest_mono:
  assumes "spanForest f s0 spans = Some F" "f \<le> f'"
  shows "spanForest f' s0 spans = Some F"
proof -
  from assms(1) obtain s roots where r: "spanTree f s0 spans = Some (s, roots)"
    "forest f (s, roots) = Some F"
    by (auto simp: spanForest_def split: option.splits)
  have "spanTree f' s0 spans = Some (s, roots)"
  proof (cases "length spans = 0")
    case True
    then show ?thesis using r(1) by (simp add: spanTree_def)
  next
    case False
    obtain s1 m where b: "buildIndex s0 spans = (s1, m)" by (cases "buildIndex s0 spans")
    obtain s2 roots2 where l: "linkAll m s1 = (s2, roots2)" by (cases "linkAll m s1")
    from r(1) False b l have "sortRoots f s2 roots2 = Some (s, roots)" by (simp add: spanTree_def)
    then have "sortEach f s2 (js_sort (compareStart s2) roots2) = Some s"
      "roots = js_sort (compareStart s2) roots2"
      by (auto simp: sortRoots_def Let_def split: option.splits)
    then have "sortRoots f' s2 roots2 = Some (s, roots)"
      using sort_mono(2) [OF _ assms(2)] by (simp add: sortRoots_def Let_def)
    then show ?thesis using False b l by (simp add: spanTree_def)
  qed
  moreover have "forest f' (s, roots) = Some F"
    using r(2) those_map_mono [of roots "materialize f s" "materialize f' s" F] mat_mono [OF _ assms(2)]
    by (simp add: forest_def)
  ultimately show ?thesis by (simp add: spanForest_def)
qed

lemma spanForest_distinct_ids:
  assumes "spanForest f s0 spans = Some F"
  shows "distinct (forest_ids F)"
proof (cases "spans = []")
  case True
  then show ?thesis using assms by (simp add: spanForest_def spanTree_empty)
next
  case False
  let ?f = "max f (length spans)"
  have sf: "spanForest ?f s0 spans = Some F" by (rule spanForest_mono [OF assms]) simp
  obtain s1 m where b: "buildIndex s0 spans = (s1, m)" by (cases "buildIndex s0 spans")
  have "length spans \<le> ?f" by simp
  from spanTree_main [OF b False this]
  obtain s roots F' where t: "spanTree ?f s0 spans = Some (s, roots)"
    "forest ?f (s, roots) = Some F'" "graph_ok m s1 s"
    "list_all (wf_tree (resolveParent m s1) s None) F'" "distinct (forest_refs F')"
    "set (forest_refs F') \<subseteq> snd ` set m" by blast
  have "F' = F" using sf t(1,2) by (simp add: spanForest_def)
  then show ?thesis using forest_ids_distinct [OF b False t(3) t(4) t(5) t(6)] by simp
qed

section \<open>Properties of the flattened sequence\<close>

lemma visible_simps [simp]:
  "visible C (t, []) = True"
  "visible C (t, x # anc) = (x \<notin> C \<and> visible C (t, anc))"
  by (auto simp: visible_def)

lemma visible_anc_cong: "visible C (t, anc) = visible C (t', anc)"
  by (simp add: visible_def)

lemma flatten_filter_preorder:
  "map fst (filter (visible C) (preorder_anc anc spans)) =
     (if set anc \<inter> C = {} then flatten C spans else [])"
proof (induction anc spans rule: preorder_anc.induct)
  case (1 anc)
  show ?case by simp
next
  case (2 anc a n ks spans)
  show ?case
  proof (cases "set anc \<inter> C = {}")
    case True
    then have v: "visible C (TSpan a n ks, anc)" by (simp add: visible_def)
    show ?thesis using True v 2 by simp
  next
    case False
    then have v: "\<not> visible C (TSpan a n ks, anc)" by (simp add: visible_def)
    have "set (span_id n # anc) \<inter> C \<noteq> {}" using False by auto
    then show ?thesis using False v 2 by simp
  qed
qed

lemma flatten_eq_spec: "flatten C spans = flatten_spec C spans"
  using flatten_filter_preorder [of C "[]" spans] by (simp add: flatten_spec_def flatten_anc_def)

lemma visible_insert: "visible (insert i C) e = (i \<notin> set (snd e) \<and> visible C e)"
  by (auto simp: visible_def)

lemma flatten_insert:
  "flatten (insert i C) spans = map fst (filter (\<lambda>e. i \<notin> set (snd e)) (flatten_anc C spans))"
proof -
  have "filter (visible (insert i C)) xs = filter (\<lambda>e. i \<notin> set (snd e)) (filter (visible C) xs)" for xs
    by (induction xs) (auto simp: visible_insert)
  then show ?thesis
    by (simp add: flatten_eq_spec flatten_spec_def flatten_anc_def)
qed

lemma own_id_not_ancestor:
  "(t, anc') \<in> set (preorder_anc anc spans) \<Longrightarrow> distinct (forest_ids spans) \<Longrightarrow>
   set anc \<inter> set (forest_ids spans) = {} \<Longrightarrow> span_id (fields t) \<notin> set anc'"
proof (induction anc spans rule: preorder_anc.induct)
  case (1 anc)
  then show ?case by simp
next
  case (2 anc a n ks spans)
  from "2.prems"(1) consider
      (here) "t = TSpan a n ks" "anc' = anc"
    | (below) "(t, anc') \<in> set (preorder_anc (span_id n # anc) ks)"
    | (right) "(t, anc') \<in> set (preorder_anc anc spans)"
    by auto
  then show ?case
  proof cases
    case here
    then show ?thesis using "2.prems"(3) by auto
  next
    case below
    have "distinct (forest_ids ks)" using "2.prems"(2) by simp
    moreover have "set (span_id n # anc) \<inter> set (forest_ids ks) = {}"
      using "2.prems"(2,3) by auto
    ultimately show ?thesis using "2.IH"(1) below by blast
  next
    case right
    have "distinct (forest_ids spans)" using "2.prems"(2) by simp
    moreover have "set anc \<inter> set (forest_ids spans) = {}" using "2.prems"(3) by auto
    ultimately show ?thesis using "2.IH"(2) right by blast
  qed
qed

lemma toggle_twice: "toggleCollapse i (toggleCollapse i C) = C"
  by (auto simp: toggleCollapse_def)

text \<open>
  The three spans of \<open>scenarioA\<close>, given with the later child first: one root with its
  children ordered by start time, depths 0, 1, 1.
\<close>

lemma scenarioA_forest: "spanForest 3 [] scenarioA = Some forestA"
  by (simp add: build_defs scenarioA_def forestA_def numeral_3_eq_3)

text \<open>
  C6. The flattened sequence is the pre-order traversal restricted to the nodes none of
  whose proper ancestors is collapsed; collapsing \<open>i\<close> removes exactly the entries that have
  \<open>i\<close> among their proper ancestors; in a forest whose span ids are distinct, and so in
  every forest the builder returns, the node \<open>i\<close> itself stays; removing \<open>i\<close> from the
  collapsed set again, or toggling twice, gives back the same sequence.
\<close>

theorem flatten_collapse:
  "flatten C F = flatten_spec C F \<and>
   flatten (insert i C) F = map fst (filter (\<lambda>e. i \<notin> set (snd e)) (flatten_anc C F)) \<and>
   (distinct (forest_ids F) \<or> spanForest fuel s0 spans = Some F \<longrightarrow>
      (\<forall>t \<in> set (flatten C F). span_id (fields t) = i \<longrightarrow> t \<in> set (flatten (insert i C) F))) \<and>
   (i \<notin> C \<longrightarrow> flatten (insert i C - {i}) F = flatten C F) \<and>
   flatten (toggleCollapse i (toggleCollapse i C)) F = flatten C F"
proof -
  have keep: "t \<in> set (flatten (insert i C) F)"
    if d: "distinct (forest_ids F)" and t: "t \<in> set (flatten C F)"
      and i: "span_id (fields t) = i" for t
  proof -
    from t obtain anc where e: "(t, anc) \<in> set (flatten_anc C F)"
      by (auto simp: flatten_eq_spec flatten_spec_def)
    then have "(t, anc) \<in> set (preorder_anc [] F)" by (simp add: flatten_anc_def)
    then have "i \<notin> set anc" using own_id_not_ancestor [of t anc "[]" F] d i by simp
    then have "(t, anc) \<in> set (filter (\<lambda>e. i \<notin> set (snd e)) (flatten_anc C F))"
      using e by simp
    then show ?thesis unfolding flatten_insert by force
  qed
  have d: "distinct (forest_ids F)"
    if "distinct (forest_ids F) \<or> spanForest fuel s0 spans = Some F"
    using that spanForest_distinct_ids by blast
  have c3: "distinct (forest_ids F) \<or> spanForest fuel s0 spans = Some F \<longrightarrow>
      (\<forall>t \<in> set (flatten C F). span_id (fields t) = i \<longrightarrow> t \<in> set (flatten (insert i C) F))"
    using keep d by blast
  have restore: "i \<notin> C \<longrightarrow> flatten (insert i C - {i}) F = flatten C F"
    by simp
  show ?thesis
    by (intro conjI flatten_eq_spec flatten_insert c3 restore) (simp only: toggle_twice)
qed

theorem flatten_collapse_witness:
  "spanForest 3 [] scenarioA = Some forestA \<and> ''R'' \<notin> ({} :: string set) \<and>
   hd forestA \<in> set (flatten {} forestA) \<and> span_id (fields (hd forestA)) = ''R'' \<and>
   length (flatten {} forestA) = 3 \<and>
   flatten (insert ''R'' {}) forestA = [hd forestA] \<and>
   hd forestA \<in> set (flatten (insert ''R'' {}) forestA) \<and>
   flatten (insert ''R'' {} - {''R''}) forestA = flatten {} forestA"
proof -
  have h: "hd forestA \<in> set (flatten {} forestA)" "span_id (fields (hd forestA)) = ''R''"
    "length (flatten {} forestA) = 3" "flatten (insert ''R'' {}) forestA = [hd forestA]"
    by (simp_all add: forestA_def toTimelineSpan_def mkSpan_def)
  note T = flatten_collapse [of "{}" forestA "''R''" 3 "[]" scenarioA]
  from T scenarioA_forest h(1,2)
  have k: "hd forestA \<in> set (flatten (insert ''R'' {}) forestA)" by blast
  from T have b: "flatten (insert ''R'' {} - {''R''}) forestA = flatten {} forestA" by blast
  show ?thesis using scenarioA_forest h k b by simp
qed

end
